theory Spec2Isabelle
  imports Main "HOL-Library.Word"
begin

section \<open>Strings of the source language\<close>

text \<open>
  A string of the source is a sequence of 16-bit code units. The literals of the
  source are all ASCII; \<open>js\<close> turns such a literal into its code units.
\<close>

type_synonym jschar = "16 word"
type_synonym jsstring = "jschar list"

definition cu :: "char \<Rightarrow> jschar" where
  "cu c = of_nat (of_char c)"

definition js :: "string \<Rightarrow> jsstring" where
  "js = map cu"

definition NL :: jschar where "NL = cu (CHR 0x0A)"
definition CR :: jschar where "CR = cu (CHR 0x0D)"

subsection \<open>Character classes\<close>

text \<open>
  The classes are given by the value \<open>unat c\<close> of a code unit. \<open>\s\<close> and
  \<open>trim\<close> use the same set: the white space and the line terminators of the language
  definition.
\<close>

definition is_space :: "jschar \<Rightarrow> bool" where
  "is_space c \<longleftrightarrow>
     unat c = 0x09 \<or> unat c = 0x0A \<or> unat c = 0x0B \<or> unat c = 0x0C \<or> unat c = 0x0D \<or>
     unat c = 0x20 \<or> unat c = 0xA0 \<or> unat c = 0x1680 \<or>
     (0x2000 \<le> unat c \<and> unat c \<le> 0x200A) \<or> unat c = 0x2028 \<or> unat c = 0x2029 \<or>
     unat c = 0x202F \<or> unat c = 0x205F \<or> unat c = 0x3000 \<or> unat c = 0xFEFF"

definition is_line_terminator :: "jschar \<Rightarrow> bool" where
  "is_line_terminator c \<longleftrightarrow>
     unat c = 0x0A \<or> unat c = 0x0D \<or> unat c = 0x2028 \<or> unat c = 0x2029"

text \<open>The dot, without the \<open>s\<close> flag: every code unit but a line terminator.\<close>

definition dot :: "jschar \<Rightarrow> bool" where
  "dot c \<longleftrightarrow> \<not> is_line_terminator c"

text \<open>\<open>\d\<close>\<close>

definition is_digit :: "jschar \<Rightarrow> bool" where
  "is_digit c \<longleftrightarrow> 0x30 \<le> unat c \<and> unat c \<le> 0x39"

text \<open>\<open>[a-zA-Z]\<close>\<close>

definition is_letter :: "jschar \<Rightarrow> bool" where
  "is_letter c \<longleftrightarrow> (0x61 \<le> unat c \<and> unat c \<le> 0x7A) \<or> (0x41 \<le> unat c \<and> unat c \<le> 0x5A)"

text \<open>\<open>[a-zA-Z0-9._%+-]\<close>\<close>

definition is_local :: "jschar \<Rightarrow> bool" where
  "is_local c \<longleftrightarrow> is_letter c \<or> is_digit c \<or> c = cu CHR ''.'' \<or> c = cu CHR ''_'' \<or>
     c = cu CHR ''%'' \<or> c = cu CHR ''+'' \<or> c = cu CHR ''-''"

text \<open>\<open>[a-zA-Z0-9.-]\<close>\<close>

definition is_domain :: "jschar \<Rightarrow> bool" where
  "is_domain c \<longleftrightarrow> is_letter c \<or> is_digit c \<or> c = cu CHR ''.'' \<or> c = cu CHR ''-''"

text \<open>\<open>[^>]\<close>\<close>

definition not_gt :: "jschar \<Rightarrow> bool" where
  "not_gt c \<longleftrightarrow> c \<noteq> cu CHR ''>''"

text \<open>The class of \<open>escapeMarkdown\<close>: underscore, star, backtick, opening bracket.\<close>

definition is_special :: "jschar \<Rightarrow> bool" where
  "is_special c \<longleftrightarrow> c = cu CHR ''_'' \<or> c = cu CHR ''*'' \<or> c = cu CHR 0x60 \<or> c = cu CHR ''[''"

text \<open>
  Case-insensitive comparison (flag \<open>i\<close>, no flag \<open>u\<close>) compares the canonical
  forms of two code units. The canonical form of a code unit from 128 on is never below
  128, and every character of the patterns of this program is ASCII, so a pattern
  character is matched by itself and, when it is a letter, by its other ASCII case:
  \<open>canon\<close> is the canonical form (the upper case) on ASCII and leaves the rest alone.
\<close>

definition canon :: "jschar \<Rightarrow> jschar" where
  "canon c = (if 0x61 \<le> unat c \<and> unat c \<le> 0x7A then c - 0x20 else c)"

section \<open>Backtracking pattern matching\<close>

text \<open>
  A pattern, run at the front of a string, gives the list of the strings that can remain
  after it, in the order in which backtracking tries them: the head is the engine's first
  choice, the empty list is failure.
\<close>

type_synonym matcher = "jsstring \<Rightarrow> jsstring list"

text \<open>A character class.\<close>

fun rx_chr :: "(jschar \<Rightarrow> bool) \<Rightarrow> matcher" where
  "rx_chr P [] = []"
| "rx_chr P (c # cs) = (if P c then [cs] else [])"

text \<open>A literal, with and without the flag \<open>i\<close>.\<close>

fun rx_lit :: "jsstring \<Rightarrow> matcher" where
  "rx_lit [] s = [s]"
| "rx_lit (p # ps) [] = []"
| "rx_lit (p # ps) (c # cs) = (if c = p then rx_lit ps cs else [])"

fun rx_lit_i :: "jsstring \<Rightarrow> matcher" where
  "rx_lit_i [] s = [s]"
| "rx_lit_i (p # ps) [] = []"
| "rx_lit_i (p # ps) (c # cs) = (if canon c = canon p then rx_lit_i ps cs else [])"

text \<open>Sequence, alternative (left first), greedy option, end of input.\<close>

fun rx_seq :: "matcher list \<Rightarrow> matcher" where
  "rx_seq [] s = [s]"
| "rx_seq (m # ms) s = concat (map (rx_seq ms) (m s))"

fun rx_alt :: "matcher list \<Rightarrow> matcher" where
  "rx_alt [] s = []"
| "rx_alt (m # ms) s = m s @ rx_alt ms s"

definition rx_opt :: "matcher \<Rightarrow> matcher" where
  "rx_opt m s = m s @ [s]"

definition rx_eos :: matcher where
  "rx_eos s = (if s = [] then [[]] else [])"

text \<open>
  Repetition of a character class: the greedy star tries the longest run first, the lazy
  one the shortest.
\<close>

fun rx_star :: "(jschar \<Rightarrow> bool) \<Rightarrow> matcher" where
  "rx_star P [] = [[]]"
| "rx_star P (c # cs) = (if P c then rx_star P cs @ [c # cs] else [c # cs])"

fun rx_star_lazy :: "(jschar \<Rightarrow> bool) \<Rightarrow> matcher" where
  "rx_star_lazy P [] = [[]]"
| "rx_star_lazy P (c # cs) = (c # cs) # (if P c then rx_star_lazy P cs else [])"

definition rx_plus :: "(jschar \<Rightarrow> bool) \<Rightarrow> matcher" where
  "rx_plus P = rx_seq [rx_chr P, rx_star P]"

text \<open>
  A pattern \<open>pre(grp)post\<close> with one capture group: the choices are pairs of the text
  the group captured and the string that remains after the whole match.
\<close>

definition rx_group :: "matcher \<Rightarrow> matcher \<Rightarrow> matcher \<Rightarrow> jsstring \<Rightarrow> (jsstring \<times> jsstring) list" where
  "rx_group pre grp post s =
     concat (map (\<lambda>r1.
       concat (map (\<lambda>r2.
         map (\<lambda>r3. (take (length r1 - length r2) r1, r3)) (post r2)) (grp r1))) (pre s))"

text \<open>
  \<open>String.prototype.match\<close> with a pattern without the flag \<open>g\<close>: the start
  positions are tried from left to right, the position after the last character included,
  and the first choice of the first position that matches is the result.
\<close>

fun rx_search :: "(jsstring \<Rightarrow> 'r list) \<Rightarrow> jsstring \<Rightarrow> 'r option" where
  "rx_search m [] = (case m [] of [] \<Rightarrow> None | r # _ \<Rightarrow> Some r)"
| "rx_search m (c # cs) = (case m (c # cs) of [] \<Rightarrow> rx_search m cs | r # _ \<Rightarrow> Some r)"

text \<open>The first capture group of the result of \<open>match\<close>.\<close>

definition rx_match1 :: "matcher \<Rightarrow> matcher \<Rightarrow> matcher \<Rightarrow> jsstring \<Rightarrow> jsstring option" where
  "rx_match1 pre grp post s = map_option fst (rx_search (rx_group pre grp post) s)"

text \<open>
  \<open>String.prototype.replace\<close> with a pattern with the flag \<open>g\<close>: every match,
  found from left to right, is replaced by \<open>f\<close> of the matched text, and the search goes
  on after the match. After an empty match the next character is copied and the search
  goes on behind it.
\<close>

function replace_all :: "matcher \<Rightarrow> (jsstring \<Rightarrow> jsstring) \<Rightarrow> jsstring \<Rightarrow> jsstring" where
  "replace_all m f s =
     (case m s of
        [] \<Rightarrow> (case s of [] \<Rightarrow> [] | c # cs \<Rightarrow> c # replace_all m f cs)
      | r # _ \<Rightarrow>
          if length r < length s
          then f (take (length s - length r) s) @ replace_all m f r
          else (case s of [] \<Rightarrow> f [] | c # cs \<Rightarrow> f [] @ c # replace_all m f cs))"
  by pat_completeness auto
termination
  by (relation "measure (\<lambda>(m, f, s). length s)") auto

declare replace_all.simps [simp del]

text \<open>\<open>String.prototype.trim\<close>\<close>

definition trim :: "jsstring \<Rightarrow> jsstring" where
  "trim s = rev (dropWhile is_space (rev (dropWhile is_space s)))"

section \<open>The program\<close>

subsection \<open>parseTransactionDetails\<close>

record TransactionFields =
  akhirKartu :: jsstring
  merchant :: jsstring
  tanggalTransaksi :: jsstring
  nominal :: jsstring

text \<open>The pattern \<open>/<[^>]*>/\<close>\<close>

definition tag_re :: matcher where
  "tag_re = rx_seq [rx_lit (js ''<''), rx_star not_gt, rx_lit (js ''>'')]"

text \<open>
  \<open>const clean = (text) => text.replace(/<[^>]*>/g, '').replace(/&nbsp;/g, ' ').trim()\<close>
\<close>

definition clean :: "jsstring \<Rightarrow> jsstring" where
  "clean text =
     trim (replace_all (rx_lit (js ''&nbsp;'')) (\<lambda>_. js '' '')
            (replace_all tag_re (\<lambda>_. []) text))"

text \<open>
  \<open>/4\s*digit\s*Akhir\s*Kartu\s*:\s*(?:&nbsp;)?\s*(\d{4})/i\<close>. The label of a
  field is the part of its pattern up to the colon.
\<close>

definition kartu_label :: matcher where
  "kartu_label =
     rx_seq [rx_lit_i (js ''4''), rx_star is_space, rx_lit_i (js ''digit''), rx_star is_space,
             rx_lit_i (js ''Akhir''), rx_star is_space, rx_lit_i (js ''Kartu''), rx_star is_space,
             rx_lit_i (js '':'')]"

definition kartuMatch :: "jsstring \<Rightarrow> jsstring option" where
  "kartuMatch =
     rx_match1
       (rx_seq [kartu_label, rx_star is_space, rx_opt (rx_lit_i (js ''&nbsp;'')), rx_star is_space])
       (rx_seq [rx_chr is_digit, rx_chr is_digit, rx_chr is_digit, rx_chr is_digit])
       (rx_seq [])"

text \<open>The end of a value: \<open>(?:<br|<\/p>|&nbsp;|\n)\<close>\<close>

definition value_end :: matcher where
  "value_end = rx_alt [rx_lit_i (js ''<br''), rx_lit_i (js ''</p>''), rx_lit_i (js ''&nbsp;''),
                       rx_lit_i [NL]]"

text \<open>\<open>/Merchant\/ATM\s*:\s*(.*?)(?:<br|<\/p>|&nbsp;|\n)/i\<close>\<close>

definition merchant_label :: matcher where
  "merchant_label = rx_seq [rx_lit_i (js ''Merchant/ATM''), rx_star is_space, rx_lit_i (js '':'')]"

definition merchantMatch :: "jsstring \<Rightarrow> jsstring option" where
  "merchantMatch =
     rx_match1
       (rx_seq [merchant_label, rx_star is_space])
       (rx_star_lazy dot)
       value_end"

text \<open>\<open>/Tanggal\s*Transaksi\s*:\s*(.*?)(?:<br|<\/p>|&nbsp;|\n)/i\<close>\<close>

definition tanggal_label :: matcher where
  "tanggal_label =
     rx_seq [rx_lit_i (js ''Tanggal''), rx_star is_space, rx_lit_i (js ''Transaksi''),
             rx_star is_space, rx_lit_i (js '':'')]"

definition tanggalMatch :: "jsstring \<Rightarrow> jsstring option" where
  "tanggalMatch =
     rx_match1
       (rx_seq [tanggal_label, rx_star is_space])
       (rx_star_lazy dot)
       value_end"

text \<open>\<open>/Nominal\s*:\s*(.*?)(?:<br|<\/p>|&nbsp;|\n)/i\<close>\<close>

definition nominal_label :: matcher where
  "nominal_label = rx_seq [rx_lit_i (js ''Nominal''), rx_star is_space, rx_lit_i (js '':'')]"

definition nominalMatch :: "jsstring \<Rightarrow> jsstring option" where
  "nominalMatch =
     rx_match1
       (rx_seq [nominal_label, rx_star is_space])
       (rx_star_lazy dot)
       value_end"

text \<open>
  \<open>if (m && m[1]) field = clean(m[1])\<close>: the field is overwritten when the pattern
  matched and the captured text is not the empty string.
\<close>

definition field_of :: "jsstring option \<Rightarrow> jsstring" where
  "field_of m = (case m of None \<Rightarrow> js ''N/A''
                 | Some c \<Rightarrow> if c \<noteq> [] then clean c else js ''N/A'')"

definition parseTransactionDetails :: "jsstring \<Rightarrow> TransactionFields" where
  "parseTransactionDetails html =
     (if html = []
      then \<lparr>akhirKartu = js ''N/A'', merchant = js ''N/A'',
            tanggalTransaksi = js ''N/A'', nominal = js ''N/A''\<rparr>
      else \<lparr>akhirKartu = field_of (kartuMatch html),
            merchant = field_of (merchantMatch html),
            tanggalTransaksi = field_of (tanggalMatch html),
            nominal = field_of (nominalMatch html)\<rparr>)"

subsection \<open>parseForwardedMail\<close>

text \<open>The fields are optional: \<open>None\<close> is a field left \<open>undefined\<close>.\<close>

record ForwardedHeader =
  from' :: "jsstring option"
  subject :: "jsstring option"
  date :: "jsstring option"

text \<open>\<open>content.replace(/<br\s*\/?>/gi, '\n')\<close>\<close>

definition br_re :: matcher where
  "br_re = rx_seq [rx_lit_i (js ''<br''), rx_star is_space, rx_opt (rx_lit_i (js ''/'')),
                   rx_lit_i (js ''>'')]"

definition normalized :: "jsstring \<Rightarrow> jsstring" where
  "normalized content = replace_all br_re (\<lambda>_. [NL]) content"

text \<open>The end of a line: \<open>(?:\r?\n|$)\<close>\<close>

definition line_end :: matcher where
  "line_end = rx_alt [rx_seq [rx_opt (rx_lit_i [CR]), rx_lit_i [NL]], rx_eos]"

text \<open>\<open>/(?:Dari|From):\s*(.*?)(?:\r?\n|$)/i\<close>\<close>

definition from_label :: matcher where
  "from_label = rx_seq [rx_alt [rx_lit_i (js ''Dari''), rx_lit_i (js ''From'')], rx_lit_i (js '':'')]"

definition fromMatch :: "jsstring \<Rightarrow> jsstring option" where
  "fromMatch =
     rx_match1
       (rx_seq [from_label, rx_star is_space])
       (rx_star_lazy dot)
       line_end"

text \<open>\<open>/(?:Date|Tanggal|Sent):\s*(.*?)(?:\r?\n|$)/i\<close>\<close>

definition date_label :: matcher where
  "date_label =
     rx_seq [rx_alt [rx_lit_i (js ''Date''), rx_lit_i (js ''Tanggal''), rx_lit_i (js ''Sent'')],
             rx_lit_i (js '':'')]"

definition dateMatch :: "jsstring \<Rightarrow> jsstring option" where
  "dateMatch =
     rx_match1
       (rx_seq [date_label, rx_star is_space])
       (rx_star_lazy dot)
       line_end"

text \<open>\<open>/Subject:\s*(.*?)(?:\r?\n|$)/i\<close>\<close>

definition subject_label :: matcher where
  "subject_label = rx_lit_i (js ''Subject:'')"

definition subjectMatch :: "jsstring \<Rightarrow> jsstring option" where
  "subjectMatch =
     rx_match1
       (rx_seq [subject_label, rx_star is_space])
       (rx_star_lazy dot)
       line_end"

text \<open>
  \<open>/([a-zA-Z0-9._%+-]+@[a-zA-Z0-9.-]+\.[a-zA-Z]{2,})/\<close>: the whole pattern is the
  capture group.
\<close>

definition email_re :: matcher where
  "email_re = rx_seq [rx_plus is_local, rx_lit (js ''@''), rx_plus is_domain, rx_lit (js ''.''),
                      rx_chr is_letter, rx_chr is_letter, rx_star is_letter]"

definition emailMatch :: "jsstring \<Rightarrow> jsstring option" where
  "emailMatch = rx_match1 (rx_seq []) email_re (rx_seq [])"

text \<open>
  The sender without an address:
  \<open>rawFrom.replace(/<[^>]*>/g, ' ').replace(/\s+/g, ' ').trim()\<close>, then
  \<open>.replace(/&lt;/g, '<').replace(/&gt;/g, '>').replace(/&amp;/g, '&')\<close>.
\<close>

definition from_fallback :: "jsstring \<Rightarrow> jsstring" where
  "from_fallback rawFrom =
     replace_all (rx_lit (js ''&amp;'')) (\<lambda>_. js ''&'')
       (replace_all (rx_lit (js ''&gt;'')) (\<lambda>_. js ''>'')
         (replace_all (rx_lit (js ''&lt;'')) (\<lambda>_. js ''<'')
           (trim (replace_all (rx_plus is_space) (\<lambda>_. js '' '')
                   (replace_all tag_re (\<lambda>_. js '' '') rawFrom)))))"

definition from_of :: "jsstring option \<Rightarrow> jsstring option" where
  "from_of m =
     (case m of None \<Rightarrow> None
      | Some rawFrom \<Rightarrow>
          if rawFrom \<noteq> [] then
            (case emailMatch rawFrom of Some e \<Rightarrow> Some e
             | None \<Rightarrow> Some (from_fallback rawFrom))
          else None)"

text \<open>\<open>m[1].replace(/<[^>]*>/g, '').trim()\<close>, for the date and the subject.\<close>

definition line_of :: "jsstring option \<Rightarrow> jsstring option" where
  "line_of m =
     (case m of None \<Rightarrow> None
      | Some c \<Rightarrow> if c \<noteq> [] then Some (trim (replace_all tag_re (\<lambda>_. []) c)) else None)"

definition parseForwardedMail :: "jsstring \<Rightarrow> ForwardedHeader" where
  "parseForwardedMail content =
     \<lparr>from' = from_of (fromMatch (normalized content)),
      subject = line_of (subjectMatch (normalized content)),
      date = line_of (dateMatch (normalized content))\<rparr>"

subsection \<open>escapeMarkdown\<close>

text \<open>
  \<open>if (!text) return ''; return text.replace(/[_*`\[]/g, '\\$&')\<close>: the replacement
  is a backslash and the matched text.
\<close>

definition escapeMarkdown :: "jsstring \<Rightarrow> jsstring" where
  "escapeMarkdown text =
     (if text = [] then []
      else replace_all (rx_chr is_special) (\<lambda>m. cu CHR 0x5C # m) text)"

text \<open>A pattern occurs in a string when it matches at some position of it.\<close>

definition occurs :: "matcher \<Rightarrow> jsstring \<Rightarrow> bool" where
  "occurs m s \<longleftrightarrow> rx_search m s \<noteq> None"

section \<open>The cleaning as the specification words it\<close>

text \<open>
  The cleaning in the words of the specification: every piece from a \<open><\<close> to the next
  \<open>>\<close> is removed, then every \<open>&nbsp;\<close> becomes one space, then the white space at
  both ends is cut off.
\<close>

function strip_tags :: "jsstring \<Rightarrow> jsstring" where
  "strip_tags [] = []"
| "strip_tags (c # cs) =
     (if c = cu CHR ''<'' \<and> cu CHR ''>'' \<in> set cs
      then strip_tags (tl (dropWhile not_gt cs))
      else c # strip_tags cs)"
  by pat_completeness auto
termination
proof (relation "measure length")
  show "wf (measure length)" by simp
next
  fix c :: jschar and cs :: jsstring
  have "length (tl (dropWhile not_gt cs)) \<le> length (dropWhile not_gt cs)" by simp
  also have "\<dots> \<le> length cs" by (rule length_dropWhile_le)
  finally show "(tl (dropWhile not_gt cs), c # cs) \<in> measure length" by simp
next
  fix c :: jschar and cs :: jsstring
  show "(cs, c # cs) \<in> measure length" by simp
qed

function decode_nbsp :: "jsstring \<Rightarrow> jsstring" where
  "decode_nbsp [] = []"
| "decode_nbsp (c # cs) =
     (if take 6 (c # cs) = js ''&nbsp;''
      then cu CHR '' '' # decode_nbsp (drop 5 cs)
      else c # decode_nbsp cs)"
  by pat_completeness auto
termination
  by (relation "measure length") auto

definition clean_spec :: "jsstring \<Rightarrow> jsstring" where
  "clean_spec s = trim (decode_nbsp (strip_tags s))"

declare strip_tags.simps [simp del] decode_nbsp.simps [simp del]

text \<open>
  Text in which no \<open>>\<close> follows a \<open><\<close>, text in which \<open>&nbsp;\<close> does not
  occur, and a test for the latter.
\<close>

definition tag_free :: "jsstring \<Rightarrow> bool" where
  "tag_free s \<longleftrightarrow> cu CHR ''>'' \<notin> set (dropWhile (\<lambda>c. c \<noteq> cu CHR ''<'') s)"

definition nbsp_free :: "jsstring \<Rightarrow> bool" where
  "nbsp_free s \<longleftrightarrow> (\<forall>k. take 6 (drop k s) \<noteq> js ''&nbsp;'')"

fun has_nbsp :: "jsstring \<Rightarrow> bool" where
  "has_nbsp [] = False"
| "has_nbsp (c # cs) = (take 6 (c # cs) = js ''&nbsp;'' \<or> has_nbsp cs)"

text \<open>
  The shape of the first match of a header pattern in the normalized text \<open>n\<close>: one of
  the labels, in any case, then white space, then the capture, which holds no line
  terminator and is followed by a newline, by a carriage return and a newline, or by the
  end of the text; and the pattern matches at no earlier position.
\<close>

definition first_line_match :: "matcher \<Rightarrow> jsstring list \<Rightarrow> jsstring \<Rightarrow> jsstring \<Rightarrow> bool" where
  "first_line_match L labels n cap \<longleftrightarrow>
     (\<exists>pre lab ws rest.
        n = pre @ lab @ ws @ cap @ rest \<and>
        (\<exists>p \<in> set labels. map canon lab = map canon p) \<and>
        list_all is_space ws \<and> list_all dot cap \<and>
        (rest = [] \<or> (\<exists>t. rest = NL # t) \<or> (\<exists>t. rest = CR # NL # t)) \<and>
        (\<forall>j < length pre.
           rx_group (rx_seq [L, rx_star is_space]) (rx_star_lazy dot) line_end (drop j n) = []))"

text \<open>
  The shape of an address in the words of the specification: before the \<open>@\<close> a
  non-empty local part of letters, digits, dot, underscore, percent, plus and hyphen; after
  it a domain whose part behind the last dot is at least two letters and whose part before
  that dot is a non-empty run of letters, digits, dots and hyphens.
\<close>

definition email_shaped :: "jsstring \<Rightarrow> bool" where
  "email_shaped e \<longleftrightarrow>
     (let l = takeWhile (\<lambda>c. c \<noteq> cu CHR ''@'') e;
          d = drop (Suc (length l)) e;
          t = rev (takeWhile (\<lambda>c. c \<noteq> cu CHR ''.'') (rev d));
          h = take (length d - Suc (length t)) d
      in length l < length e \<and> l \<noteq> [] \<and> list_all is_local l \<and>
         length t < length d \<and> h \<noteq> [] \<and> list_all is_domain h \<and>
         2 \<le> length t \<and> list_all is_letter t)"

text \<open>
  A pattern is blind to case when two texts with the same canonical form give it choices
  with the same canonical forms, in the same order; it consumes from the front when each
  choice is an end piece of the text.
\<close>

definition ci_inv :: "matcher \<Rightarrow> bool" where
  "ci_inv m \<longleftrightarrow>
     (\<forall>s s'. map canon s = map canon s' \<longrightarrow>
        list_all2 (\<lambda>r r'. map canon r = map canon r') (m s) (m s'))"

definition sfx :: "matcher \<Rightarrow> bool" where
  "sfx m \<longleftrightarrow> (\<forall>s r. r \<in> set (m s) \<longrightarrow> (\<exists>w. s = w @ r))"

section \<open>Evaluation\<close>

lemma unat_cu: "unat (cu c) = of_char c"
proof -
  have "(256 :: nat) < 2 ^ 16"
    by simp
  then have "(of_char c :: nat) < 2 ^ 16"
    by (rule less_trans [OF nat_of_char_less_256])
  then show ?thesis
    by (simp add: cu_def unat_of_nat)
qed

lemma cu_eq_iff: "cu a = cu b \<longleftrightarrow> a = b"
proof
  assume "cu a = cu b"
  then have "unat (cu a) = unat (cu b)" by simp
  then show "a = b" by (simp add: unat_cu)
qed simp

lemma unat_canon:
  "unat (canon c) = (if 0x61 \<le> unat c \<and> unat c \<le> 0x7A then unat c - 0x20 else unat c)"
proof (cases "0x61 \<le> unat c \<and> unat c \<le> 0x7A")
  case True
  then have "(0x20 :: jschar) \<le> c"
    by (simp add: word_le_nat_alt)
  then have e: "unat (c - 0x20) = unat c - unat (0x20 :: jschar)"
    by (rule unat_sub)
  have n: "unat (0x20 :: jschar) = 0x20"
    by simp
  have "canon c = c - 0x20"
    using True by (simp add: canon_def)
  then show ?thesis
    using True by (simp only: e n simp_thms if_True)
next
  case False
  then show ?thesis by (simp only: canon_def if_False)
qed

lemma canon_cu_eq:
  "canon (cu a) = canon (cu b) \<longleftrightarrow>
     (if 0x61 \<le> (of_char a :: nat) \<and> (of_char a :: nat) \<le> 0x7A then of_char a - 0x20 else of_char a)
   = (if 0x61 \<le> (of_char b :: nat) \<and> (of_char b :: nat) \<le> 0x7A then of_char b - 0x20
      else (of_char b :: nat))"
  by (simp only: word_unat_eq_iff unat_canon unat_cu)

lemmas class_defs = is_space_def is_line_terminator_def dot_def is_digit_def is_letter_def
  is_local_def is_domain_def not_gt_def is_special_def NL_def CR_def

lemmas rx_defs = rx_opt_def rx_eos_def rx_plus_def rx_group_def rx_match1_def trim_def

lemmas prog_defs = tag_re_def clean_def kartu_label_def kartuMatch_def value_end_def
  merchant_label_def merchantMatch_def tanggal_label_def tanggalMatch_def nominal_label_def
  nominalMatch_def field_of_def parseTransactionDetails_def br_re_def normalized_def line_end_def
  from_label_def fromMatch_def date_label_def dateMatch_def subject_label_def subjectMatch_def
  email_re_def emailMatch_def from_fallback_def from_of_def line_of_def parseForwardedMail_def
  escapeMarkdown_def

lemmas eval = js_def unat_cu cu_eq_iff canon_cu_eq class_defs rx_defs prog_defs replace_all.simps

lemma js_Nil_iff: "js s = [] \<longleftrightarrow> s = []"
  by (simp add: js_def)

section \<open>Replacement\<close>

lemma replace_all_chr:
  "replace_all (rx_chr P) f s = concat (map (\<lambda>c. if P c then f [c] else [c]) s)"
proof (induction s)
  case Nil
  show ?case by (subst replace_all.simps) simp
next
  case (Cons c cs)
  show ?case by (subst replace_all.simps) (simp add: Cons.IH)
qed

lemma js_eq_iff: "js a = js b \<longleftrightarrow> a = b"
proof -
  have "inj cu"
    by (rule injI) (simp add: cu_eq_iff)
  then show ?thesis
    by (simp add: js_def inj_map_eq_map)
qed

section \<open>What a pattern can leave\<close>

lemma in_rx_chr: "r \<in> set (rx_chr P s) \<longleftrightarrow> (\<exists>c. s = c # r \<and> P c)"
  by (cases s) auto

lemma in_rx_lit: "r \<in> set (rx_lit p s) \<longleftrightarrow> s = p @ r"
  by (induction p s rule: rx_lit.induct) auto

lemma in_rx_lit_i: "r \<in> set (rx_lit_i p s) \<longleftrightarrow> (\<exists>l. s = l @ r \<and> map canon l = map canon p)"
proof (induction p s rule: rx_lit_i.induct)
  case (1 s)
  show ?case by auto
next
  case (2 p ps)
  show ?case by auto
next
  case (3 p ps c cs)
  show ?case
  proof
    assume "r \<in> set (rx_lit_i (p # ps) (c # cs))"
    then have "canon c = canon p" and "r \<in> set (rx_lit_i ps cs)"
      by (auto split: if_splits)
    with 3 obtain l where "cs = l @ r" "map canon l = map canon ps"
      by auto
    then have "c # cs = (c # l) @ r \<and> map canon (c # l) = map canon (p # ps)"
      using \<open>canon c = canon p\<close> by simp
    then show "\<exists>l. c # cs = l @ r \<and> map canon l = map canon (p # ps)"
      by blast
  next
    assume "\<exists>l. c # cs = l @ r \<and> map canon l = map canon (p # ps)"
    then obtain l where l: "c # cs = l @ r" "map canon l = map canon (p # ps)"
      by blast
    then obtain l' where "l = c # l'" "canon c = canon p" "map canon l' = map canon ps" "cs = l' @ r"
      by (cases l) auto
    with 3 show "r \<in> set (rx_lit_i (p # ps) (c # cs))"
      by auto
  qed
qed

lemma in_rx_star: "r \<in> set (rx_star P s) \<longleftrightarrow> (\<exists>w. s = w @ r \<and> list_all P w)"
proof (induction s)
  case Nil
  show ?case by auto
next
  case (Cons c cs)
  show ?case
  proof
    assume "r \<in> set (rx_star P (c # cs))"
    then consider "r = c # cs" | "P c" "r \<in> set (rx_star P cs)"
      by (auto split: if_splits)
    then show "\<exists>w. c # cs = w @ r \<and> list_all P w"
    proof cases
      case 1
      then have "c # cs = [] @ r \<and> list_all P []" by simp
      then show ?thesis by blast
    next
      case 2
      with Cons obtain w where "cs = w @ r" "list_all P w" by auto
      with 2 have "c # cs = (c # w) @ r \<and> list_all P (c # w)" by simp
      then show ?thesis by blast
    qed
  next
    assume "\<exists>w. c # cs = w @ r \<and> list_all P w"
    then obtain w where w: "c # cs = w @ r" "list_all P w" by blast
    show "r \<in> set (rx_star P (c # cs))"
    proof (cases w)
      case Nil
      with w show ?thesis by auto
    next
      case (Cons a w')
      with w have "a = c" "cs = w' @ r" "P c" "list_all P w'" by auto
      with Cons.IH show ?thesis by auto
    qed
  qed
qed

lemma set_rx_star_lazy: "set (rx_star_lazy P s) = set (rx_star P s)"
  by (induction s) auto

lemma in_rx_star_lazy: "r \<in> set (rx_star_lazy P s) \<longleftrightarrow> (\<exists>w. s = w @ r \<and> list_all P w)"
  by (simp add: set_rx_star_lazy in_rx_star)

lemma in_rx_seq_Cons: "r \<in> set (rx_seq (m # ms) s) \<longleftrightarrow> (\<exists>t \<in> set (m s). r \<in> set (rx_seq ms t))"
  by auto

lemma rx_seq_Nil: "rx_seq [] = (\<lambda>s. [s])"
  by (rule ext) simp

lemma rx_seq_single: "rx_seq [m] s = m s"
  by (simp add: rx_seq_Nil)

lemma in_rx_opt: "r \<in> set (rx_opt m s) \<longleftrightarrow> r \<in> set (m s) \<or> r = s"
  by (auto simp: rx_opt_def)

lemma in_rx_eos: "r \<in> set (rx_eos s) \<longleftrightarrow> s = [] \<and> r = []"
  by (auto simp: rx_eos_def)

lemma in_rx_group:
  "(c, r) \<in> set (rx_group pre grp post s) \<longleftrightarrow>
     (\<exists>r1 \<in> set (pre s). \<exists>r2 \<in> set (grp r1). r \<in> set (post r2) \<and> c = take (length r1 - length r2) r1)"
  by (auto simp: rx_group_def)

lemma rx_group_Nil: "pre s = [] \<Longrightarrow> rx_group pre grp post s = []"
  by (simp add: rx_group_def)

section \<open>Search\<close>

lemma rx_search_None_iff: "rx_search m s = None \<longleftrightarrow> (\<forall>k \<le> length s. m (drop k s) = [])"
proof (induction s)
  case Nil
  show ?case by (auto split: list.splits)
next
  case (Cons c cs)
  have "(\<forall>k \<le> length (c # cs). m (drop k (c # cs)) = []) \<longleftrightarrow>
        m (c # cs) = [] \<and> (\<forall>k \<le> length cs. m (drop k cs) = [])"
  proof
    assume a: "\<forall>k \<le> length (c # cs). m (drop k (c # cs)) = []"
    have "m (c # cs) = []" using a [rule_format, of 0] by simp
    moreover have "m (drop k cs) = []" if "k \<le> length cs" for k
      using a [rule_format, of "Suc k"] that by simp
    ultimately show "m (c # cs) = [] \<and> (\<forall>k \<le> length cs. m (drop k cs) = [])" by blast
  next
    assume a: "m (c # cs) = [] \<and> (\<forall>k \<le> length cs. m (drop k cs) = [])"
    show "\<forall>k \<le> length (c # cs). m (drop k (c # cs)) = []"
    proof (intro allI impI)
      fix k assume "k \<le> length (c # cs)"
      then show "m (drop k (c # cs)) = []"
        using a by (cases k) auto
    qed
  qed
  with Cons show ?case by (auto split: list.splits)
qed

lemma rx_search_Some:
  "rx_search m s = Some r \<Longrightarrow>
     \<exists>k \<le> length s. (\<exists>rs. m (drop k s) = r # rs) \<and> (\<forall>j < k. m (drop j s) = [])"
proof (induction s)
  case Nil
  then show ?case by (auto split: list.splits)
next
  case (Cons c cs)
  show ?case
  proof (cases "m (c # cs)")
    case Nil
    with Cons.prems have "rx_search m cs = Some r" by simp
    with Cons.IH obtain k where k: "k \<le> length cs" "\<exists>rs. m (drop k cs) = r # rs"
      "\<forall>j < k. m (drop j cs) = []" by blast
    have "\<forall>j < Suc k. m (drop j (c # cs)) = []"
    proof (intro allI impI)
      fix j assume "j < Suc k"
      then show "m (drop j (c # cs)) = []"
        using k(3) Nil by (cases j) auto
    qed
    with k(1,2) have "Suc k \<le> length (c # cs) \<and> (\<exists>rs. m (drop (Suc k) (c # cs)) = r # rs) \<and>
       (\<forall>j < Suc k. m (drop j (c # cs)) = [])" by simp
    then show ?thesis by blast
  next
    case (Cons a as)
    with Cons.prems have "a = r" by simp
    with Cons have "0 \<le> length (c # cs) \<and> (\<exists>rs. m (drop 0 (c # cs)) = r # rs) \<and>
       (\<forall>j < 0. m (drop j (c # cs)) = [])" by simp
    then show ?thesis by blast
  qed
qed

lemma rx_search_first: "m s = r # rs \<Longrightarrow> rx_search m s = Some r"
  by (cases s) auto

lemma rx_search_mono:
  assumes "\<And>t. m t = [] \<Longrightarrow> m' t = []" and "rx_search m s = None"
  shows "rx_search m' s = None"
  using assms by (simp add: rx_search_None_iff)

lemma rx_match1_None: "rx_search pre s = None \<Longrightarrow> rx_match1 (rx_seq (pre # ms)) grp post s = None"
proof -
  assume a: "rx_search pre s = None"
  have "rx_search (rx_group (rx_seq (pre # ms)) grp post) s = None"
    by (rule rx_search_mono [OF _ a]) (simp add: rx_group_def)
  then show ?thesis by (simp add: rx_match1_def)
qed

section \<open>Replacement, step by step\<close>

lemma replace_all_Nil: "m [] = [] \<Longrightarrow> replace_all m f [] = []"
  by (subst replace_all.simps) simp

lemma replace_all_skip: "m (c # cs) = [] \<Longrightarrow> replace_all m f (c # cs) = c # replace_all m f cs"
  by (subst replace_all.simps) simp

lemma replace_all_step:
  "m s = r # rs \<Longrightarrow> length r < length s \<Longrightarrow>
   replace_all m f s = f (take (length s - length r) s) @ replace_all m f r"
  by (subst replace_all.simps) simp

section \<open>Literals\<close>

lemma rx_lit_i_append: "rx_lit_i (p @ q) s = concat (map (rx_lit_i q) (rx_lit_i p s))"
  by (induction p s rule: rx_lit_i.induct) auto

lemma rx_lit_i_length: "r \<in> set (rx_lit_i p s) \<Longrightarrow> length s = length p + length r"
proof -
  assume "r \<in> set (rx_lit_i p s)"
  then obtain l where "s = l @ r" "map canon l = map canon p"
    by (auto simp: in_rx_lit_i)
  then show ?thesis
    using map_eq_imp_length_eq [of canon l canon p] by simp
qed

lemma rx_seq_single_fun: "rx_seq [m] = m"
  by (rule ext) (rule rx_seq_single)

lemma from_label_eq: "from_label t = rx_lit_i (js ''Dari:'') t @ rx_lit_i (js ''From:'') t"
proof -
  have "js ''Dari:'' = js ''Dari'' @ js '':''" "js ''From:'' = js ''From'' @ js '':''"
    by (simp_all add: js_def)
  then show ?thesis
    by (simp add: from_label_def rx_lit_i_append rx_seq_single_fun)
qed

lemma date_label_eq:
  "date_label t = rx_lit_i (js ''Date:'') t @ rx_lit_i (js ''Tanggal:'') t @ rx_lit_i (js ''Sent:'') t"
proof -
  have "js ''Date:'' = js ''Date'' @ js '':''" "js ''Tanggal:'' = js ''Tanggal'' @ js '':''"
    "js ''Sent:'' = js ''Sent'' @ js '':''"
    by (simp_all add: js_def)
  then show ?thesis
    by (simp add: date_label_def rx_lit_i_append rx_seq_single_fun)
qed

section \<open>Line breaks\<close>

lemma br_re_shorter: "r \<in> set (br_re s) \<Longrightarrow> length r < length s"
proof -
  assume "r \<in> set (br_re s)"
  then obtain t1 t2 t3 where t: "t1 \<in> set (rx_lit_i (js ''<br'') s)" "t2 \<in> set (rx_star is_space t1)"
    "t3 \<in> set (rx_opt (rx_lit_i (js ''/'')) t2)" "r \<in> set (rx_lit_i (js ''>'') t3)"
    by (auto simp: br_re_def rx_seq_Nil)
  have "length t1 < length s" using rx_lit_i_length [OF t(1)] by (simp add: js_def)
  moreover have "length t2 \<le> length t1" using t(2) by (auto simp: in_rx_star)
  moreover have "length t3 \<le> length t2" using t(3) rx_lit_i_length [of t3 "js ''/''" t2]
    by (auto simp: in_rx_opt)
  moreover have "length r \<le> length t3" using rx_lit_i_length [OF t(4)] by simp
  ultimately show ?thesis by linarith
qed

lemma br_re_Nil: "br_re [] = []"
  by (simp add: br_re_def js_def)

lemma normalized_Nil: "normalized [] = []"
  by (simp add: normalized_def replace_all_Nil br_re_Nil)

lemma normalized_skip: "br_re (c # cs) = [] \<Longrightarrow> normalized (c # cs) = c # normalized cs"
  by (simp add: normalized_def replace_all_skip)

lemma normalized_step: "br_re s = r # rs \<Longrightarrow> normalized s = NL # normalized r"
proof -
  assume a: "br_re s = r # rs"
  then have "length r < length s"
    using br_re_shorter [of r s] by simp
  with a show ?thesis
    by (simp add: normalized_def replace_all_step)
qed

text \<open>A literal without a newline that starts the normalized text starts the text.\<close>

lemma rx_lit_i_normalized:
  assumes "list_all (\<lambda>c. canon c \<noteq> canon NL) p"
    and "rx_lit_i p (normalized s) \<noteq> []"
  shows "rx_lit_i p s \<noteq> []"
  using assms
proof (induction p arbitrary: s)
  case Nil
  show ?case by simp
next
  case (Cons a ps)
  show ?case
  proof (cases "br_re s")
    case (Cons r rs)
    then have "normalized s = NL # normalized r"
      by (rule normalized_step)
    with Cons.prems show ?thesis
      by (auto split: if_splits)
  next
    case Nil
    show ?thesis
    proof (cases s)
      case Nil
      with Cons.prems show ?thesis
        by (simp add: normalized_Nil)
    next
      case (Cons c cs)
      with \<open>br_re s = []\<close> have n: "normalized s = c # normalized cs"
        by (simp add: normalized_skip)
      with Cons.prems(2) have "canon c = canon a" "rx_lit_i ps (normalized cs) \<noteq> []"
        by (auto split: if_splits)
      moreover have "rx_lit_i ps cs \<noteq> []"
        using Cons.IH [of cs] Cons.prems(1) \<open>rx_lit_i ps (normalized cs) \<noteq> []\<close> by simp
      ultimately show ?thesis
        using Cons by simp
    qed
  qed
qed

lemma rx_search_suffix: "rx_search m (w @ r) = None \<Longrightarrow> rx_search m r = None"
  by (induction w) (auto split: list.splits)

lemma br_re_suffix: "r \<in> set (br_re s) \<Longrightarrow> \<exists>w. s = w @ r"
proof -
  assume "r \<in> set (br_re s)"
  then obtain t1 t2 t3 where t: "t1 \<in> set (rx_lit_i (js ''<br'') s)" "t2 \<in> set (rx_star is_space t1)"
    "t3 \<in> set (rx_opt (rx_lit_i (js ''/'')) t2)" "r \<in> set (rx_lit_i (js ''>'') t3)"
    by (auto simp: br_re_def rx_seq_Nil)
  from t(1) obtain w1 where "s = w1 @ t1" by (auto simp: in_rx_lit_i)
  moreover from t(2) obtain w2 where "t1 = w2 @ t2" by (auto simp: in_rx_star)
  moreover from t(3) obtain w3 where "t2 = w3 @ t3" by (auto simp: in_rx_opt in_rx_lit_i)
  moreover from t(4) obtain w4 where "t3 = w4 @ r" by (auto simp: in_rx_lit_i)
  ultimately have "s = (w1 @ w2 @ w3 @ w4) @ r" by simp
  then show ?thesis by blast
qed

lemma search_normalized:
  assumes tr: "\<And>t. L (normalized t) \<noteq> [] \<Longrightarrow> L t \<noteq> []"
    and nl: "\<And>t. L (NL # t) = []"
  shows "rx_search L s = None \<Longrightarrow> rx_search L (normalized s) = None"
proof (induction "length s" arbitrary: s rule: less_induct)
  case less
  show ?case
  proof (cases "br_re s")
    case (Cons r rs)
    then have n: "normalized s = NL # normalized r"
      by (rule normalized_step)
    from Cons have r: "r \<in> set (br_re s)" by simp
    then obtain w where "s = w @ r"
      using br_re_suffix by blast
    with less.prems have "rx_search L r = None"
      using rx_search_suffix by blast
    moreover have "length r < length s"
      using r by (rule br_re_shorter)
    ultimately have "rx_search L (normalized r) = None"
      by (rule less.hyps [rotated])
    with n nl show ?thesis by simp
  next
    case Nil
    show ?thesis
    proof (cases s)
      case Nil
      with less.prems show ?thesis
        by (simp add: normalized_Nil)
    next
      case (Cons c cs)
      with \<open>br_re s = []\<close> have n: "normalized s = c # normalized cs"
        by (simp add: normalized_skip)
      from less.prems Cons have "L s = []" "rx_search L cs = None"
        by (auto split: list.splits)
      then have "L (normalized s) = []" "rx_search L (normalized cs) = None"
        using tr [of s] less.hyps [of cs] Cons by auto
      with n show ?thesis by simp
    qed
  qed
qed

lemma label_normalized:
  assumes eq: "\<And>t. L t = concat (map (\<lambda>p. rx_lit_i p t) ps)"
    and ps: "list_all (\<lambda>p. p \<noteq> [] \<and> list_all (\<lambda>c. canon c \<noteq> canon NL) p) ps"
  shows "\<not> occurs L s \<Longrightarrow> \<not> occurs L (normalized s)"
proof -
  have tr: "L t \<noteq> []" if "L (normalized t) \<noteq> []" for t
  proof -
    from that obtain p where p: "p \<in> set ps" "rx_lit_i p (normalized t) \<noteq> []"
      by (auto simp: eq)
    with ps have "list_all (\<lambda>c. canon c \<noteq> canon NL) p"
      by (auto simp: list_all_iff)
    then have "rx_lit_i p t \<noteq> []"
      using p(2) by (rule rx_lit_i_normalized)
    with p(1) show ?thesis
      by (auto simp: eq)
  qed
  have nl: "L (NL # t) = []" for t
  proof -
    have "rx_lit_i p (NL # t) = []" if "p \<in> set ps" for p
    proof (cases p)
      case Nil
      with ps that show ?thesis by (auto simp: list_all_iff)
    next
      case (Cons a as)
      with ps that have "canon a \<noteq> canon NL" by (auto simp: list_all_iff)
      with Cons show ?thesis by auto
    qed
    then show ?thesis by (simp add: eq)
  qed
  show "\<not> occurs L s \<Longrightarrow> \<not> occurs L (normalized s)"
    using search_normalized [of L, OF tr nl] by (simp add: occurs_def)
qed

lemma from_label_normalized: "\<not> occurs from_label s \<Longrightarrow> \<not> occurs from_label (normalized s)"
  by (rule label_normalized [where ps = "[js ''Dari:'', js ''From:'']"])
    (simp_all add: from_label_eq js_def NL_def canon_cu_eq)

lemma date_label_normalized: "\<not> occurs date_label s \<Longrightarrow> \<not> occurs date_label (normalized s)"
  by (rule label_normalized [where ps = "[js ''Date:'', js ''Tanggal:'', js ''Sent:'']"])
    (simp_all add: date_label_eq js_def NL_def canon_cu_eq)

lemma subject_label_normalized:
  "\<not> occurs subject_label s \<Longrightarrow> \<not> occurs subject_label (normalized s)"
  by (rule label_normalized [where ps = "[js ''Subject:'']"])
    (simp_all add: subject_label_def js_def NL_def canon_cu_eq)

lemma occurs_match1: "\<not> occurs pre s \<Longrightarrow> rx_match1 (rx_seq (pre # ms)) grp post s = None"
  by (simp add: occurs_def rx_match1_None)

section \<open>Greedy repetition without backtracking\<close>

lemma star_possessive:
  assumes "\<And>c cs. P c \<Longrightarrow> m (c # cs) = []"
  shows "concat (map m (rx_star P s)) = m (dropWhile P s)"
  by (induction s) (simp_all add: assms)

section \<open>Tags\<close>

lemma tag_re_Nil: "tag_re [] = []"
  by (simp add: tag_re_def js_def)

lemma tag_re_Cons:
  "tag_re (c # cs) =
     (if c = cu CHR ''<'' then (case dropWhile not_gt cs of [] \<Rightarrow> [] | x # r \<Rightarrow> [r]) else [])"
proof -
  have p: "concat (map (rx_lit [cu CHR ''>'']) (rx_star not_gt cs)) = rx_lit [cu CHR ''>''] (dropWhile not_gt cs)"
    by (rule star_possessive) (simp add: not_gt_def)
  have g: "rx_lit [cu CHR ''>''] d = (case d of [] \<Rightarrow> [] | x # r \<Rightarrow> [r])"
    if "d = [] \<or> hd d = cu CHR ''>''" for d
    using that by (cases d) auto
  have "dropWhile not_gt cs = [] \<or> hd (dropWhile not_gt cs) = cu CHR ''>''"
    using hd_dropWhile [of not_gt cs] by (auto simp: not_gt_def)
  then have "rx_lit [cu CHR ''>''] (dropWhile not_gt cs) =
      (case dropWhile not_gt cs of [] \<Rightarrow> [] | x # r \<Rightarrow> [r])"
    by (rule g)
  with p show ?thesis
    by (simp add: tag_re_def js_def rx_seq_single_fun)
qed

lemma dropWhile_not_gt_Nil: "dropWhile not_gt cs = [] \<longleftrightarrow> cu CHR ''>'' \<notin> set cs"
  by (auto simp: dropWhile_eq_Nil_conv not_gt_def)

lemma replace_tags: "replace_all tag_re (\<lambda>_. []) s = strip_tags s"
proof (induction s rule: strip_tags.induct)
  case 1
  show ?case by (simp add: replace_all_Nil tag_re_Nil strip_tags.simps)
next
  case (2 c cs)
  show ?case
  proof (cases "c = cu CHR ''<'' \<and> cu CHR ''>'' \<in> set cs")
    case True
    then have "dropWhile not_gt cs \<noteq> []"
      by (simp only: dropWhile_not_gt_Nil) simp
    then obtain x r where d: "dropWhile not_gt cs = x # r"
      by (cases "dropWhile not_gt cs") auto
    then have "length r < length (dropWhile not_gt cs)" by simp
    also have "\<dots> \<le> length cs" by (rule length_dropWhile_le)
    finally have l: "length r < length (c # cs)" by simp
    have "tag_re (c # cs) = [r]"
      using True d by (simp add: tag_re_Cons)
    then have "replace_all tag_re (\<lambda>_. []) (c # cs) = replace_all tag_re (\<lambda>_. []) r"
      using l by (simp add: replace_all_step)
    with 2(1) True d show ?thesis
      by (simp add: strip_tags.simps)
  next
    case False
    have "tag_re (c # cs) = []"
    proof (cases "c = cu CHR ''<''")
      case True
      with False have "dropWhile not_gt cs = []"
        by (simp only: dropWhile_not_gt_Nil) simp
      with True show ?thesis by (simp only: tag_re_Cons) simp
    next
      case False
      then show ?thesis by (simp only: tag_re_Cons) simp
    qed
    then have "replace_all tag_re (\<lambda>_. []) (c # cs) = c # replace_all tag_re (\<lambda>_. []) cs"
      by (rule replace_all_skip)
    moreover have "strip_tags (c # cs) = c # strip_tags cs"
      using False by (simp only: strip_tags.simps if_False)
    ultimately show ?thesis
      using 2(2) False by simp
  qed
qed

section \<open>Literal replacement\<close>

lemma rx_lit_take: "rx_lit p s = (if take (length p) s = p then [drop (length p) s] else [])"
  by (induction p s rule: rx_lit.induct) auto

lemma replace_nbsp: "replace_all (rx_lit (js ''&nbsp;'')) (\<lambda>_. js '' '') s = decode_nbsp s"
proof (induction s rule: decode_nbsp.induct)
  case 1
  show ?case by (simp add: replace_all_Nil js_def decode_nbsp.simps)
next
  case (2 c cs)
  have len: "length (js ''&nbsp;'') = 6" by (simp add: js_def)
  show ?case
  proof (cases "take 6 (c # cs) = js ''&nbsp;''")
    case True
    then have "rx_lit (js ''&nbsp;'') (c # cs) = [drop 5 cs]"
      by (simp add: rx_lit_take len)
    then have "replace_all (rx_lit (js ''&nbsp;'')) (\<lambda>_. js '' '') (c # cs) =
        js '' '' @ replace_all (rx_lit (js ''&nbsp;'')) (\<lambda>_. js '' '') (drop 5 cs)"
      by (simp add: replace_all_step)
    with 2(1) True show ?thesis
      by (simp add: decode_nbsp.simps js_def)
  next
    case False
    then have "rx_lit (js ''&nbsp;'') (c # cs) = []"
      by (simp add: rx_lit_take len)
    then have "replace_all (rx_lit (js ''&nbsp;'')) (\<lambda>_. js '' '') (c # cs) =
        c # replace_all (rx_lit (js ''&nbsp;'')) (\<lambda>_. js '' '') cs"
      by (rule replace_all_skip)
    with 2(2) False show ?thesis
      by (simp add: decode_nbsp.simps)
  qed
qed

lemma clean_eq_spec: "clean s = clean_spec s"
  by (simp add: clean_def clean_spec_def replace_tags replace_nbsp)

section \<open>Trimming\<close>

lemma rev_dropWhile_split: "y = rev (dropWhile P (rev y)) @ rev (takeWhile P (rev y))"
proof -
  have "rev y = takeWhile P (rev y) @ dropWhile P (rev y)"
    by (simp only: takeWhile_dropWhile_id)
  then have "rev (rev y) = rev (takeWhile P (rev y) @ dropWhile P (rev y))"
    by (rule arg_cong)
  then show ?thesis
    by (simp only: rev_rev_ident rev_append)
qed

lemma trim_split:
  "dropWhile is_space s = trim s @ rev (takeWhile is_space (rev (dropWhile is_space s)))"
  unfolding trim_def by (rule rev_dropWhile_split)

lemma trim_sublist: "\<exists>a b. s = a @ trim s @ b"
proof -
  have "s = takeWhile is_space s @ dropWhile is_space s" by simp
  then have "s = takeWhile is_space s @ trim s @ rev (takeWhile is_space (rev (dropWhile is_space s)))"
    using trim_split [of s] by simp
  then show ?thesis by blast
qed

lemma dropWhile_id: "xs = [] \<or> \<not> P (hd xs) \<Longrightarrow> dropWhile P xs = xs"
  by (cases xs) auto

lemma trim_ends: "trim s = [] \<or> (\<not> is_space (hd (trim s)) \<and> \<not> is_space (last (trim s)))"
proof (cases "trim s = []")
  case True
  then show ?thesis by simp
next
  case False
  let ?y = "dropWhile is_space s"
  let ?z = "dropWhile is_space (rev ?y)"
  from False have z: "?z \<noteq> []" by (simp add: trim_def)
  then have "\<not> is_space (hd ?z)" by (rule hd_dropWhile)
  then have l: "\<not> is_space (last (trim s))"
    using z by (simp add: trim_def last_rev)
  from z have y: "?y \<noteq> []" by (metis dropWhile.simps(1) rev.simps(1))
  then have hy: "\<not> is_space (hd ?y)" by (rule hd_dropWhile)
  have "?y = trim s @ rev (takeWhile is_space (rev ?y))" by (rule trim_split)
  then have "hd ?y = hd (trim s)" using False by (metis hd_append2)
  with hy l show ?thesis by simp
qed

lemma trim_idem: "trim (trim s) = trim s"
proof (cases "trim s = []")
  case True
  have "trim [] = []" by (simp add: trim_def)
  with True show ?thesis by simp
next
  case False
  with trim_ends [of s] have h: "\<not> is_space (hd (trim s))" and l: "\<not> is_space (last (trim s))"
    by auto
  have "dropWhile is_space (trim s) = trim s"
    using h by (simp add: dropWhile_id)
  moreover have "dropWhile is_space (rev (trim s)) = rev (trim s)"
    using l False by (intro dropWhile_id) (simp add: hd_rev)
  ultimately show ?thesis
    by (simp add: trim_def [of "trim s"])
qed

section \<open>Text without tags\<close>

lemma set_strip_tags: "set (strip_tags s) \<subseteq> set s"
proof (induction s rule: strip_tags.induct)
  case 1
  show ?case by (simp add: strip_tags.simps)
next
  case (2 c cs)
  have "set (tl xs) \<subseteq> set xs" for xs :: jsstring
    by (cases xs) auto
  then have "set (tl (dropWhile not_gt cs)) \<subseteq> set (dropWhile not_gt cs)" .
  moreover have "set (dropWhile not_gt cs) \<subseteq> set cs"
    by (auto dest: set_dropWhileD)
  ultimately have "set (tl (dropWhile not_gt cs)) \<subseteq> set cs"
    by (rule subset_trans)
  with 2 show ?case
    by (auto simp: strip_tags.simps)
qed

lemma tag_free_Cons: "tag_free (c # cs) \<longleftrightarrow> (if c = cu CHR ''<'' then cu CHR ''>'' \<notin> set cs else tag_free cs)"
  by (simp add: tag_free_def cu_eq_iff)

lemma tag_free_Nil: "tag_free []"
  by (simp add: tag_free_def)

lemma tag_free_strip: "tag_free (strip_tags s)"
proof (induction s rule: strip_tags.induct)
  case 1
  show ?case by (simp add: strip_tags.simps tag_free_Nil)
next
  case (2 c cs)
  show ?case
  proof (cases "c = cu CHR ''<'' \<and> cu CHR ''>'' \<in> set cs")
    case True
    with 2(1) show ?thesis by (simp add: strip_tags.simps)
  next
    case False
    then have e: "strip_tags (c # cs) = c # strip_tags cs"
      by (simp only: strip_tags.simps if_False)
    show ?thesis
    proof (cases "c = cu CHR ''<''")
      case True
      with False have "cu CHR ''>'' \<notin> set cs" by simp
      then have "cu CHR ''>'' \<notin> set (strip_tags cs)"
        using set_strip_tags [of cs] by auto
      with True e show ?thesis by (simp add: tag_free_Cons)
    next
      case c: False
      with 2(2) False e show ?thesis by (simp add: tag_free_Cons)
    qed
  qed
qed

lemma tag_free_suffix: "tag_free (a @ m) \<Longrightarrow> tag_free m"
proof (induction a)
  case Nil
  then show ?case by simp
next
  case (Cons x a)
  then show ?case
    by (cases "x = cu CHR ''<''") (auto simp: tag_free_Cons tag_free_def dest: set_dropWhileD)
qed

lemma tag_free_prefix: "tag_free (m @ b) \<Longrightarrow> tag_free m"
proof (induction m)
  case Nil
  show ?case by (rule tag_free_Nil)
next
  case (Cons x m)
  then show ?case
    by (cases "x = cu CHR ''<''") (auto simp: tag_free_Cons)
qed

lemma strip_tag_free: "tag_free s \<Longrightarrow> strip_tags s = s"
proof (induction s)
  case Nil
  show ?case by (simp add: strip_tags.simps)
next
  case (Cons c cs)
  from Cons.prems have n: "\<not> (c = cu CHR ''<'' \<and> cu CHR ''>'' \<in> set cs)"
    by (auto simp: tag_free_Cons)
  have "tag_free cs"
    using Cons.prems tag_free_suffix [of "[c]" cs] by simp
  then have "strip_tags cs = cs" by (rule Cons.IH)
  moreover have "strip_tags (c # cs) = c # strip_tags cs"
    using n by (simp only: strip_tags.simps if_False)
  ultimately show ?case by simp
qed

lemma tag_free_filter:
  "tag_free (filter (\<lambda>c. c = cu CHR ''<'' \<or> c = cu CHR ''>'') s) \<longleftrightarrow> tag_free s"
  by (induction s) (auto simp: tag_free_Cons tag_free_Nil cu_eq_iff)

lemma filter_decode:
  "filter (\<lambda>c. c = cu CHR ''<'' \<or> c = cu CHR ''>'') (decode_nbsp s) =
   filter (\<lambda>c. c = cu CHR ''<'' \<or> c = cu CHR ''>'') s"
proof (induction s rule: decode_nbsp.induct)
  case 1
  show ?case by (simp add: decode_nbsp.simps)
next
  case (2 c cs)
  let ?Q = "\<lambda>c. c = cu CHR ''<'' \<or> c = cu CHR ''>''"
  show ?case
  proof (cases "take 6 (c # cs) = js ''&nbsp;''")
    case True
    have "c # cs = take 6 (c # cs) @ drop 6 (c # cs)" by (simp only: append_take_drop_id)
    then have "c # cs = js ''&nbsp;'' @ drop 6 (c # cs)" by (simp only: True)
    moreover have "drop 6 (c # cs) = drop 5 cs" by simp
    ultimately have "c # cs = js ''&nbsp;'' @ drop 5 cs" by (simp only:)
    then have "filter ?Q (c # cs) = filter ?Q (js ''&nbsp;'') @ filter ?Q (drop 5 cs)"
      by (metis filter_append)
    then have "filter ?Q (c # cs) = filter ?Q (drop 5 cs)"
      by (simp add: js_def cu_eq_iff)
    with 2(1) True show ?thesis
      by (simp add: decode_nbsp.simps cu_eq_iff)
  next
    case False
    with 2(2) show ?thesis
      by (simp add: decode_nbsp.simps)
  qed
qed

lemma tag_free_decode: "tag_free s \<Longrightarrow> tag_free (decode_nbsp s)"
  using tag_free_filter [of "decode_nbsp s"] tag_free_filter [of s] by (simp add: filter_decode)

lemma tag_free_trim: "tag_free s \<Longrightarrow> tag_free (trim s)"
proof -
  assume a: "tag_free s"
  obtain x y where "s = x @ trim s @ y" using trim_sublist by blast
  with a have "tag_free (x @ trim s @ y)" by simp
  then have "tag_free (trim s @ y)" by (rule tag_free_suffix)
  then show ?thesis by (rule tag_free_prefix)
qed

section \<open>Text without the entity\<close>

lemma decode_Cons_nbsp: "take 6 s = js ''&nbsp;'' \<Longrightarrow> decode_nbsp s = cu CHR '' '' # decode_nbsp (drop 6 s)"
proof -
  assume a: "take 6 s = js ''&nbsp;''"
  then obtain c cs where s: "s = c # cs" by (cases s) (auto simp: js_def)
  with a show ?thesis
    by (simp add: decode_nbsp.simps)
qed

lemma decode_Cons_other: "take 6 (c # cs) \<noteq> js ''&nbsp;'' \<Longrightarrow> decode_nbsp (c # cs) = c # decode_nbsp cs"
  by (simp add: decode_nbsp.simps)

lemma decode_head:
  assumes "decode_nbsp t = x # rest" and "x \<noteq> cu CHR '' ''"
  shows "\<exists>t'. t = x # t' \<and> decode_nbsp t' = rest"
proof (cases t)
  case Nil
  with assms show ?thesis by (simp add: decode_nbsp.simps)
next
  case (Cons c cs)
  show ?thesis
  proof (cases "take 6 (c # cs) = js ''&nbsp;''")
    case True
    then have "decode_nbsp (c # cs) = cu CHR '' '' # decode_nbsp (drop 6 (c # cs))"
      by (rule decode_Cons_nbsp)
    with assms Cons show ?thesis by simp
  next
    case False
    then have "decode_nbsp (c # cs) = c # decode_nbsp cs"
      by (rule decode_Cons_other)
    with assms Cons show ?thesis by simp
  qed
qed

lemma decode_word:
  assumes "decode_nbsp t = w @ rest" and "cu CHR '' '' \<notin> set w"
  shows "\<exists>t'. t = w @ t' \<and> decode_nbsp t' = rest"
  using assms
proof (induction w arbitrary: t)
  case Nil
  then show ?case by simp
next
  case (Cons x w)
  from Cons.prems have "decode_nbsp t = x # (w @ rest)" "x \<noteq> cu CHR '' ''" by auto
  then obtain t1 where t1: "t = x # t1" "decode_nbsp t1 = w @ rest"
    using decode_head by blast
  with Cons.IH [of t1] Cons.prems(2) obtain t' where "t1 = w @ t'" "decode_nbsp t' = rest"
    by auto
  with t1 have "t = (x # w) @ t' \<and> decode_nbsp t' = rest" by simp
  then show ?case by blast
qed

lemma decode_no_nbsp_head: "take 6 (decode_nbsp t) \<noteq> js ''&nbsp;''"
proof
  assume a: "take 6 (decode_nbsp t) = js ''&nbsp;''"
  have "decode_nbsp t = take 6 (decode_nbsp t) @ drop 6 (decode_nbsp t)"
    by (simp only: append_take_drop_id)
  then have d: "decode_nbsp t = js ''&nbsp;'' @ drop 6 (decode_nbsp t)"
    by (simp only: a)
  have "cu CHR '' '' \<notin> set (js ''&nbsp;'')"
    by (simp add: js_def cu_eq_iff)
  with d obtain t' where t': "t = js ''&nbsp;'' @ t'"
    using decode_word by blast
  have "length (js ''&nbsp;'') = 6" by (simp add: js_def)
  with t' have "take 6 t = js ''&nbsp;''" by simp
  then have "decode_nbsp t = cu CHR '' '' # decode_nbsp (drop 6 t)"
    by (rule decode_Cons_nbsp)
  with d show False
    by (simp add: js_def cu_eq_iff)
qed

lemma drop_decode: "\<exists>t. drop k (decode_nbsp s) = decode_nbsp t"
proof (induction k arbitrary: s)
  case 0
  show ?case by auto
next
  case (Suc k)
  show ?case
  proof (cases s)
    case Nil
    then have "drop (Suc k) (decode_nbsp s) = decode_nbsp []" by (simp add: decode_nbsp.simps)
    then show ?thesis by blast
  next
    case (Cons c cs)
    show ?thesis
    proof (cases "take 6 (c # cs) = js ''&nbsp;''")
      case True
      then have "decode_nbsp (c # cs) = cu CHR '' '' # decode_nbsp (drop 6 (c # cs))"
        by (rule decode_Cons_nbsp)
      with Cons have "drop (Suc k) (decode_nbsp s) = drop k (decode_nbsp (drop 6 (c # cs)))" by simp
      with Suc show ?thesis by simp
    next
      case False
      then have "decode_nbsp (c # cs) = c # decode_nbsp cs"
        by (rule decode_Cons_other)
      with Cons have "drop (Suc k) (decode_nbsp s) = drop k (decode_nbsp cs)" by simp
      with Suc show ?thesis by simp
    qed
  qed
qed

lemma nbsp_free_decode: "nbsp_free (decode_nbsp s)"
  unfolding nbsp_free_def
proof
  fix k
  obtain t where "drop k (decode_nbsp s) = decode_nbsp t"
    using drop_decode by blast
  then show "take 6 (drop k (decode_nbsp s)) \<noteq> js ''&nbsp;''"
    using decode_no_nbsp_head [of t] by simp
qed

lemma nbsp_free_suffix: "nbsp_free (a @ m) \<Longrightarrow> nbsp_free m"
  unfolding nbsp_free_def
proof
  fix k
  assume a: "\<forall>k. take 6 (drop k (a @ m)) \<noteq> js ''&nbsp;''"
  have "drop (length a + k) (a @ m) = drop k m" by simp
  with a [rule_format, of "length a + k"] show "take 6 (drop k m) \<noteq> js ''&nbsp;''"
    by simp
qed

lemma nbsp_free_prefix: "nbsp_free (m @ b) \<Longrightarrow> nbsp_free m"
  unfolding nbsp_free_def
proof
  fix k
  assume a: "\<forall>k. take 6 (drop k (m @ b)) \<noteq> js ''&nbsp;''"
  show "take 6 (drop k m) \<noteq> js ''&nbsp;''"
  proof
    assume e: "take 6 (drop k m) = js ''&nbsp;''"
    have "length (js ''&nbsp;'') = 6" by (simp add: js_def)
    with e have "6 \<le> length (drop k m)"
      by (metis length_take min.cobounded1)
    then have "take 6 (drop k (m @ b)) = take 6 (drop k m)" by simp
    then have "take 6 (drop k (m @ b)) = js ''&nbsp;''" by (simp only: e)
    with a show False by blast
  qed
qed

lemma decode_nbsp_free: "nbsp_free s \<Longrightarrow> decode_nbsp s = s"
proof (induction s)
  case Nil
  show ?case by (simp add: decode_nbsp.simps)
next
  case (Cons c cs)
  from Cons.prems have "take 6 (drop 0 (c # cs)) \<noteq> js ''&nbsp;''"
    unfolding nbsp_free_def by blast
  then have "decode_nbsp (c # cs) = c # decode_nbsp cs"
    by (simp add: decode_Cons_other)
  moreover have "nbsp_free cs"
    using Cons.prems nbsp_free_suffix [of "[c]" cs] by simp
  ultimately show ?case
    using Cons.IH by simp
qed

lemma nbsp_free_trim: "nbsp_free s \<Longrightarrow> nbsp_free (trim s)"
proof -
  assume a: "nbsp_free s"
  obtain x y where "s = x @ trim s @ y" using trim_sublist by blast
  with a have "nbsp_free (x @ trim s @ y)" by simp
  then have "nbsp_free (trim s @ y)" by (rule nbsp_free_suffix)
  then show ?thesis by (rule nbsp_free_prefix)
qed

section \<open>Cleaning twice\<close>

lemma clean_spec_idem: "clean_spec (clean_spec s) = clean_spec s"
proof -
  let ?x = "clean_spec s"
  have "tag_free ?x"
    unfolding clean_spec_def by (intro tag_free_trim tag_free_decode tag_free_strip)
  then have 1: "strip_tags ?x = ?x" by (rule strip_tag_free)
  have "nbsp_free ?x"
    unfolding clean_spec_def by (intro nbsp_free_trim nbsp_free_decode)
  then have 2: "decode_nbsp ?x = ?x" by (rule decode_nbsp_free)
  have 3: "trim ?x = ?x"
    unfolding clean_spec_def by (rule trim_idem)
  show ?thesis
    by (simp add: clean_spec_def [of "clean_spec s"] 1 2 3)
qed

lemma has_nbsp_drop: "take 6 (drop k s) = js ''&nbsp;'' \<Longrightarrow> has_nbsp s"
proof (induction s arbitrary: k)
  case Nil
  then show ?case by (simp add: js_def)
next
  case (Cons c cs)
  then show ?case by (cases k) auto
qed

lemma nbsp_free_iff: "\<not> has_nbsp s \<Longrightarrow> nbsp_free s"
  unfolding nbsp_free_def using has_nbsp_drop by blast

lemma clean_plain:
  assumes "cu CHR ''<'' \<notin> set s" and "\<not> has_nbsp s"
  shows "clean s = trim s"
proof -
  have d: "dropWhile (\<lambda>c. c \<noteq> cu CHR ''<'') s = []"
    using assms(1) by (auto simp: dropWhile_eq_Nil_conv)
  have "tag_free s" unfolding tag_free_def d by simp
  then have "strip_tags s = s" by (rule strip_tag_free)
  moreover have "decode_nbsp s = s"
    using assms(2) by (intro decode_nbsp_free nbsp_free_iff)
  ultimately show ?thesis
    by (simp add: clean_eq_spec clean_spec_def)
qed

section \<open>Canonical forms\<close>

lemma canon_eq_plain:
  assumes "\<not> is_letter p" and "canon c = canon p"
  shows "c = p"
proof -
  from assms(1) have p: "canon p = p"
    by (simp add: canon_def is_letter_def)
  show ?thesis
  proof (cases "0x61 \<le> unat c \<and> unat c \<le> 0x7A")
    case True
    then have "unat (canon c) = unat c - 0x20"
      by (simp only: unat_canon simp_thms if_True)
    with True have "0x41 \<le> unat (canon c) \<and> unat (canon c) \<le> 0x5A"
      by auto
    then have "is_letter (canon c)"
      by (simp only: is_letter_def simp_thms)
    with assms p show ?thesis by simp
  next
    case False
    then have "canon c = c" by (simp only: canon_def if_False)
    with assms(2) p show ?thesis by simp
  qed
qed

lemma not_letter_NL_CR: "\<not> is_letter NL" "\<not> is_letter CR"
  by (simp_all add: is_letter_def NL_def CR_def unat_cu)

lemma rx_lit_i_plain1: "\<not> is_letter p \<Longrightarrow> rx_lit_i [p] s = (case s of [] \<Rightarrow> [] | c # cs \<Rightarrow> if c = p then [cs] else [])"
  by (cases s) (auto dest: canon_eq_plain)

section \<open>The end of a line\<close>

lemma in_line_end:
  "r \<in> set (line_end s) \<longleftrightarrow> (s = [] \<and> r = []) \<or> s = NL # r \<or> s = CR # NL # r"
proof -
  have "NL \<noteq> CR" by (simp add: NL_def CR_def cu_eq_iff)
  then show ?thesis
    by (auto simp: line_end_def rx_opt_def rx_eos_def rx_seq_single_fun rx_lit_i_plain1 not_letter_NL_CR
        split: list.splits if_splits)
qed


section \<open>The shape of a match of a header line\<close>

lemma line_match_shape:
  assumes eq: "\<And>t. L t = concat (map (\<lambda>p. rx_lit_i p t) ps)"
    and m: "rx_match1 (rx_seq [L, rx_star is_space]) (rx_star_lazy dot) line_end n = Some cap"
  shows "first_line_match L ps n cap"
proof -
  let ?G = "rx_group (rx_seq [L, rx_star is_space]) (rx_star_lazy dot) line_end"
  from m obtain r3 where "rx_search ?G n = Some (cap, r3)"
    by (auto simp: rx_match1_def)
  then obtain k rs where k: "k \<le> length n" "?G (drop k n) = (cap, r3) # rs"
    "\<forall>j < k. ?G (drop j n) = []"
    using rx_search_Some [of ?G n "(cap, r3)"] by blast
  from k(2) have "(cap, r3) \<in> set (?G (drop k n))" by simp
  then obtain r1 r2 where r: "r1 \<in> set (rx_seq [L, rx_star is_space] (drop k n))"
    "r2 \<in> set (rx_star_lazy dot r1)" "r3 \<in> set (line_end r2)"
    "cap = take (length r1 - length r2) r1"
    by (auto simp: in_rx_group)
  from r(1) obtain r0 where r0: "r0 \<in> set (L (drop k n))" "r1 \<in> set (rx_star is_space r0)"
    by (auto simp: rx_seq_Nil)
  from r0(1) obtain p where p: "p \<in> set ps" "r0 \<in> set (rx_lit_i p (drop k n))"
    by (auto simp: eq)
  then obtain lab where lab: "drop k n = lab @ r0" "map canon lab = map canon p"
    by (auto simp: in_rx_lit_i)
  from r0(2) obtain ws where ws: "r0 = ws @ r1" "list_all is_space ws"
    by (auto simp: in_rx_star)
  from r(2) obtain w where w: "r1 = w @ r2" "list_all dot w"
    by (auto simp: in_rx_star_lazy)
  with r(4) have cap: "cap = w" by simp
  from r(3) have e: "r2 = [] \<or> (\<exists>t. r2 = NL # t) \<or> (\<exists>t. r2 = CR # NL # t)"
    by (auto simp: in_line_end)
  have "n = take k n @ drop k n" by simp
  with lab ws w cap have n: "n = take k n @ lab @ ws @ cap @ r2" by simp
  have "length (take k n) = k" using k(1) by simp
  with k(3) have f: "\<forall>j < length (take k n). ?G (drop j n) = []" by simp
  show ?thesis
    unfolding first_line_match_def
    using n p(1) lab(2) ws(2) w(2) cap e f by blast
qed

lemma from_label_lits: "from_label t = concat (map (\<lambda>p. rx_lit_i p t) [js ''Dari:'', js ''From:''])"
  by (simp add: from_label_eq)

lemma date_label_lits:
  "date_label t = concat (map (\<lambda>p. rx_lit_i p t) [js ''Date:'', js ''Tanggal:'', js ''Sent:''])"
  by (simp add: date_label_eq)

lemma subject_label_lits: "subject_label t = concat (map (\<lambda>p. rx_lit_i p t) [js ''Subject:''])"
  by (simp add: subject_label_def)

lemma from_of_Some: "from_of m = Some v \<Longrightarrow> \<exists>cap. m = Some cap \<and> cap \<noteq> []"
  by (auto simp: from_of_def split: option.splits if_splits)

lemma line_of_Some: "line_of m = Some v \<Longrightarrow> \<exists>cap. m = Some cap \<and> cap \<noteq> []"
  by (auto simp: line_of_def split: option.splits if_splits)

lemma from_of_None: "from_of m = None \<longleftrightarrow> m = None \<or> m = Some []"
  by (auto simp: from_of_def split: option.splits)

lemma line_of_None: "line_of m = None \<longleftrightarrow> m = None \<or> m = Some []"
  by (auto simp: line_of_def split: option.splits)

section \<open>A capture does not start with white space\<close>

lemma concat_map_head:
  "concat (map f xs) = y # ys \<Longrightarrow> \<exists>x \<in> set xs. \<exists>zs. f x = y # zs"
proof (induction xs)
  case Nil
  then show ?case by simp
next
  case (Cons x xs)
  then show ?case
    by (cases "f x") auto
qed

lemma rx_group_seq:
  "rx_group (rx_seq [L, m]) grp post t = concat (map (rx_group m grp post) (L t))"
proof -
  have "concat (map k (concat (map m xs))) = concat (map (\<lambda>x. concat (map k (m x))) xs)"
    for k :: "jsstring \<Rightarrow> (jsstring \<times> jsstring) list" and xs
    by (induction xs) simp_all
  then show ?thesis
    unfolding rx_group_def [abs_def] by (simp add: rx_seq_single_fun)
qed

lemma rx_group_id:
  "(c, r) \<in> set (rx_group (\<lambda>s. [s]) (rx_star_lazy dot) line_end r1) \<longleftrightarrow>
     (\<exists>r2. r1 = c @ r2 \<and> list_all dot c \<and> r \<in> set (line_end r2))"
  by (auto simp: in_rx_group in_rx_star_lazy)

lemma rx_group_star_Nil:
  "rx_group (rx_star P) grp post [] = rx_group (\<lambda>s. [s]) grp post []"
  by (simp add: rx_group_def)

lemma rx_group_star_Cons:
  "rx_group (rx_star P) grp post (x # t) =
     (if P x then rx_group (rx_star P) grp post t @ rx_group (\<lambda>s. [s]) grp post (x # t)
      else rx_group (\<lambda>s. [s]) grp post (x # t))"
  by (simp add: rx_group_def)

lemma capture_after_space:
  "rx_group (rx_star is_space) (rx_star_lazy dot) line_end r0 = (c, r) # rest \<Longrightarrow>
   c = [] \<or> \<not> is_space (hd c)"
proof (induction r0 arbitrary: rest)
  case Nil
  then have "(c, r) \<in> set (rx_group (\<lambda>s. [s]) (rx_star_lazy dot) line_end [])"
    by (simp add: rx_group_star_Nil)
  then show ?case by (simp add: rx_group_id)
next
  case (Cons x t)
  let ?H = "rx_group (rx_star is_space) (rx_star_lazy dot) line_end"
  let ?F = "rx_group (\<lambda>s. [s]) (rx_star_lazy dot) line_end"
  show ?case
  proof (cases "is_space x")
    case False
    with Cons.prems have "(c, r) \<in> set (?F (x # t))"
      by (simp add: rx_group_star_Cons)
    then obtain r2 where "x # t = c @ r2"
      by (auto simp: rx_group_id)
    with False show ?thesis
      by (cases c) auto
  next
    case True
    with Cons.prems have e: "?H t @ ?F (x # t) = (c, r) # rest"
      by (simp add: rx_group_star_Cons)
    show ?thesis
    proof (cases "?H t")
      case (Cons a as)
      with e have "?H t = (c, r) # as" by simp
      then show ?thesis by (rule Cons.IH)
    next
      case Nil
      with e have "(c, r) \<in> set (?F (x # t))" by simp
      then obtain r2 where r2: "x # t = c @ r2" "list_all dot c" "r \<in> set (line_end r2)"
        by (auto simp: rx_group_id)
      show ?thesis
      proof (cases c)
        case Nil
        then show ?thesis by simp
      next
        case (Cons y c')
        with r2 have "t = c' @ r2" "list_all dot c'" by auto
        with r2(3) have "(c', r) \<in> set (?F t)"
          by (auto simp: rx_group_id)
        moreover have "t \<in> set (rx_star is_space t)"
          by (simp add: in_rx_star)
        ultimately have "(c', r) \<in> set (?H t)"
          by (auto simp: rx_group_def)
        with \<open>?H t = []\<close> show ?thesis by simp
      qed
    qed
  qed
qed

lemma capture_not_space:
  assumes "rx_match1 (rx_seq [L, rx_star is_space]) (rx_star_lazy dot) line_end n = Some cap"
  shows "cap = [] \<or> \<not> is_space (hd cap)"
proof -
  let ?G = "rx_group (rx_seq [L, rx_star is_space]) (rx_star_lazy dot) line_end"
  from assms obtain r3 where "rx_search ?G n = Some (cap, r3)"
    by (auto simp: rx_match1_def)
  then obtain k rs where "?G (drop k n) = (cap, r3) # rs"
    using rx_search_Some [of ?G n "(cap, r3)"] by blast
  then have "concat (map (rx_group (rx_star is_space) (rx_star_lazy dot) line_end) (L (drop k n))) =
      (cap, r3) # rs"
    by (simp only: rx_group_seq)
  then obtain r0 zs where "rx_group (rx_star is_space) (rx_star_lazy dot) line_end r0 = (cap, r3) # zs"
    using concat_map_head by meson
  then show ?thesis by (rule capture_after_space)
qed

section \<open>Addresses\<close>

lemma at_not_local: "\<not> is_local (cu CHR ''@'')"
  by (simp add: is_local_def is_letter_def is_digit_def unat_cu cu_eq_iff)

lemma dot_not_letter: "\<not> is_letter (cu CHR ''.'')"
  by (simp add: is_letter_def unat_cu)

lemma takeWhile_stop:
  assumes "list_all P xs" and "\<not> P y"
  shows "takeWhile P (xs @ y # ys) = xs"
  using assms by (induction xs) auto

lemma email_shapedI:
  assumes "l \<noteq> []" "list_all is_local l" "h \<noteq> []" "list_all is_domain h"
    "2 \<le> length t" "list_all is_letter t"
  shows "email_shaped (l @ cu CHR ''@'' # h @ cu CHR ''.'' # t)"
proof -
  let ?e = "l @ cu CHR ''@'' # h @ cu CHR ''.'' # t"
  have "list_all (\<lambda>c. c \<noteq> cu CHR ''@'') l"
    using assms(2) at_not_local by (auto simp: list_all_iff)
  then have l: "takeWhile (\<lambda>c. c \<noteq> cu CHR ''@'') ?e = l"
    by (rule takeWhile_stop) simp
  have d: "drop (Suc (length l)) ?e = h @ cu CHR ''.'' # t"
    by simp
  have "list_all (\<lambda>c. c \<noteq> cu CHR ''.'') (rev t)"
    using assms(6) dot_not_letter by (auto simp: list_all_iff)
  then have "takeWhile (\<lambda>c. c \<noteq> cu CHR ''.'') (rev t @ cu CHR ''.'' # rev h) = rev t"
    by (rule takeWhile_stop) simp
  then have t: "rev (takeWhile (\<lambda>c. c \<noteq> cu CHR ''.'') (rev (h @ cu CHR ''.'' # t))) = t"
    by simp
  show ?thesis
    unfolding email_shaped_def l d t Let_def
    using assms by simp
qed

lemma email_shapedE:
  assumes "email_shaped e"
  shows "\<exists>l h t. e = l @ cu CHR ''@'' # h @ cu CHR ''.'' # t \<and> l \<noteq> [] \<and> list_all is_local l \<and>
     h \<noteq> [] \<and> list_all is_domain h \<and> 2 \<le> length t \<and> list_all is_letter t"
proof -
  let ?P = "\<lambda>c. c \<noteq> cu CHR ''@''"
  let ?Q = "\<lambda>c. c \<noteq> cu CHR ''.''"
  define l where "l = takeWhile ?P e"
  define d where "d = drop (Suc (length l)) e"
  define t where "t = rev (takeWhile ?Q (rev d))"
  define h where "h = take (length d - Suc (length t)) d"
  from assms have a: "length l < length e" "l \<noteq> []" "list_all is_local l"
    "length t < length d" "h \<noteq> []" "list_all is_domain h" "2 \<le> length t" "list_all is_letter t"
    unfolding email_shaped_def Let_def l_def [symmetric] d_def [symmetric] t_def [symmetric]
      h_def [symmetric] by simp_all
  have e: "e = l @ dropWhile ?P e"
    unfolding l_def by simp
  with a(1) have n: "dropWhile ?P e \<noteq> []"
    by (metis append_Nil2 less_irrefl)
  then have "\<not> ?P (hd (dropWhile ?P e))"
    by (rule hd_dropWhile)
  with n have "dropWhile ?P e = cu CHR ''@'' # tl (dropWhile ?P e)"
    by (cases "dropWhile ?P e") auto
  with e have e1: "e = l @ cu CHR ''@'' # tl (dropWhile ?P e)"
    by simp
  then have "drop (Suc (length l)) e = drop (Suc (length l)) (l @ cu CHR ''@'' # tl (dropWhile ?P e))"
    by simp
  then have d1: "d = tl (dropWhile ?P e)"
    unfolding d_def by simp
  have rd: "rev d = rev t @ dropWhile ?Q (rev d)"
    unfolding t_def by simp
  have "length (rev d) = length (rev t) + length (dropWhile ?Q (rev d))"
    by (subst rd) simp
  with a(4) have n2: "dropWhile ?Q (rev d) \<noteq> []"
    by auto
  then have "\<not> ?Q (hd (dropWhile ?Q (rev d)))"
    by (rule hd_dropWhile)
  with n2 obtain x where x: "dropWhile ?Q (rev d) = cu CHR ''.'' # x"
    by (cases "dropWhile ?Q (rev d)") auto
  with rd have "rev d = rev t @ cu CHR ''.'' # x"
    by simp
  then have "rev (rev d) = rev (rev t @ cu CHR ''.'' # x)"
    by (rule arg_cong)
  then have d2: "d = rev x @ cu CHR ''.'' # t"
    by simp
  then have "h = rev x"
    unfolding h_def by simp
  with d2 have "d = h @ cu CHR ''.'' # t" by simp
  with e1 d1 have "e = l @ cu CHR ''@'' # h @ cu CHR ''.'' # t" by simp
  with a show ?thesis by blast
qed

lemma in_rx_seq_Nil: "r \<in> set (rx_seq [] s) \<longleftrightarrow> r = s"
  by simp

lemma in_rx_plus: "r \<in> set (rx_plus P s) \<longleftrightarrow> (\<exists>w. s = w @ r \<and> w \<noteq> [] \<and> list_all P w)"
proof
  assume "r \<in> set (rx_plus P s)"
  then obtain c w where "s = c # w @ r" "P c" "list_all P w"
    by (auto simp: rx_plus_def rx_seq_single_fun in_rx_chr in_rx_star)
  then have "s = (c # w) @ r \<and> c # w \<noteq> [] \<and> list_all P (c # w)" by simp
  then show "\<exists>w. s = w @ r \<and> w \<noteq> [] \<and> list_all P w" by blast
next
  assume "\<exists>w. s = w @ r \<and> w \<noteq> [] \<and> list_all P w"
  then obtain w where w: "s = w @ r" "w \<noteq> []" "list_all P w" by blast
  then obtain c w' where "w = c # w'" by (cases w) auto
  with w have "s = c # w' @ r" "P c" "list_all P w'" by auto
  then have "w' @ r \<in> set (rx_chr P s)" "r \<in> set (rx_star P (w' @ r))"
    by (auto simp: in_rx_chr in_rx_star)
  then show "r \<in> set (rx_plus P s)"
    by (auto simp: rx_plus_def rx_seq_single_fun)
qed

lemma email_re_sound:
  assumes "r \<in> set (email_re s)"
  shows "\<exists>e. s = e @ r \<and> email_shaped e"
proof -
  from assms obtain t1 t2 t3 t4 t5 t6 where
    t: "t1 \<in> set (rx_plus is_local s)" "t2 \<in> set (rx_lit (js ''@'') t1)"
      "t3 \<in> set (rx_plus is_domain t2)" "t4 \<in> set (rx_lit (js ''.'') t3)"
      "t5 \<in> set (rx_chr is_letter t4)" "t6 \<in> set (rx_chr is_letter t5)"
      "r \<in> set (rx_star is_letter t6)"
    by (auto simp: email_re_def rx_seq_single_fun)
  from t(1) obtain l where l: "s = l @ t1" "l \<noteq> []" "list_all is_local l"
    by (auto simp: in_rx_plus)
  from t(2) have t1: "t1 = cu CHR ''@'' # t2"
    by (simp add: in_rx_lit js_def)
  from t(3) obtain h where h: "t2 = h @ t3" "h \<noteq> []" "list_all is_domain h"
    by (auto simp: in_rx_plus)
  from t(4) have t3: "t3 = cu CHR ''.'' # t4"
    by (simp add: in_rx_lit js_def)
  from t(5) obtain a where a: "t4 = a # t5" "is_letter a"
    by (auto simp: in_rx_chr)
  from t(6) obtain b where b: "t5 = b # t6" "is_letter b"
    by (auto simp: in_rx_chr)
  from t(7) obtain w where w: "t6 = w @ r" "list_all is_letter w"
    by (auto simp: in_rx_star)
  have "email_shaped (l @ cu CHR ''@'' # h @ cu CHR ''.'' # (a # b # w))"
    using l(2,3) h(2,3) a(2) b(2) w(2) by (intro email_shapedI) simp_all
  moreover have "s = (l @ cu CHR ''@'' # h @ cu CHR ''.'' # (a # b # w)) @ r"
    using l(1) t1 h(1) t3 a(1) b(1) w(1) by simp
  ultimately show ?thesis by blast
qed

lemma email_re_complete:
  assumes "email_shaped e"
  shows "r \<in> set (email_re (e @ r))"
proof -
  from assms obtain l h t where e: "e = l @ cu CHR ''@'' # h @ cu CHR ''.'' # t" "l \<noteq> []"
    "list_all is_local l" "h \<noteq> []" "list_all is_domain h" "2 \<le> length t" "list_all is_letter t"
    using email_shapedE by blast
  from e(6) obtain a b w where t: "t = a # b # w"
    by (cases t; cases "tl t") auto
  with e(7) have ab: "is_letter a" "is_letter b" "list_all is_letter w" by auto
  let ?t1 = "cu CHR ''@'' # h @ cu CHR ''.'' # a # b # w @ r"
  let ?t2 = "h @ cu CHR ''.'' # a # b # w @ r"
  let ?t3 = "cu CHR ''.'' # a # b # w @ r"
  have "?t1 \<in> set (rx_plus is_local (e @ r))"
    using e(1,2,3) t by (auto simp: in_rx_plus)
  moreover have "?t2 \<in> set (rx_lit (js ''@'') ?t1)"
    by (simp add: in_rx_lit js_def)
  moreover have "?t3 \<in> set (rx_plus is_domain ?t2)"
    using e(4,5) by (auto simp: in_rx_plus)
  moreover have "a # b # w @ r \<in> set (rx_lit (js ''.'') ?t3)"
    by (simp add: in_rx_lit js_def)
  moreover have "b # w @ r \<in> set (rx_chr is_letter (a # b # w @ r))"
    "w @ r \<in> set (rx_chr is_letter (b # w @ r))" "r \<in> set (rx_star is_letter (w @ r))"
    using ab by (auto simp: in_rx_chr in_rx_star)
  ultimately show ?thesis
    unfolding email_re_def
    by (simp only: in_rx_seq_Cons in_rx_seq_Nil) blast
qed


lemma emailMatch_sound:
  assumes "emailMatch raw = Some e"
  shows "\<exists>a b. raw = a @ e @ b \<and> email_shaped e \<and>
     (\<forall>a' e' b'. raw = a' @ e' @ b' \<and> email_shaped e' \<longrightarrow> length a \<le> length a')"
proof -
  let ?G = "rx_group (rx_seq []) email_re (rx_seq [])"
  from assms obtain r3 where "rx_search ?G raw = Some (e, r3)"
    by (auto simp: emailMatch_def rx_match1_def)
  then obtain k rs where k: "k \<le> length raw" "?G (drop k raw) = (e, r3) # rs"
    "\<forall>j < k. ?G (drop j raw) = []"
    using rx_search_Some [of ?G raw "(e, r3)"] by blast
  from k(2) have "(e, r3) \<in> set (?G (drop k raw))" by simp
  then have r: "r3 \<in> set (email_re (drop k raw))"
    "e = take (length (drop k raw) - length r3) (drop k raw)"
    by (auto simp: in_rx_group)
  from r(1) obtain e' where e': "drop k raw = e' @ r3" "email_shaped e'"
    using email_re_sound by blast
  with r(2) have "e = e'" by simp
  with e' have d: "drop k raw = e @ r3" and sh: "email_shaped e" by simp_all
  have "raw = take k raw @ drop k raw" by simp
  with d have raw: "raw = take k raw @ e @ r3" by simp
  have "length (take k raw) \<le> length a'" if "raw = a' @ e' @ b'" "email_shaped e'" for a' e' b'
  proof (rule ccontr)
    assume "\<not> length (take k raw) \<le> length a'"
    with k(1) have "length a' < k" by simp
    with k(3) have "?G (drop (length a') raw) = []" by blast
    with that(1) have "?G (e' @ b') = []" by simp
    moreover have "b' \<in> set (email_re (e' @ b'))"
      using that(2) by (rule email_re_complete)
    ultimately show False
      by (auto simp: rx_group_def)
  qed
  with raw sh show ?thesis by blast
qed

lemma emailMatch_complete:
  assumes "raw = a @ e @ b" and "email_shaped e"
  shows "emailMatch raw \<noteq> None"
proof -
  let ?G = "rx_group (rx_seq []) email_re (rx_seq [])"
  have "b \<in> set (email_re (e @ b))"
    using assms(2) by (rule email_re_complete)
  then have "?G (e @ b) \<noteq> []"
    by (auto simp: rx_group_def)
  then have "?G (drop (length a) raw) \<noteq> []"
    using assms(1) by simp
  moreover have "length a \<le> length raw"
    using assms(1) by simp
  ultimately have "rx_search ?G raw \<noteq> None"
    using rx_search_None_iff [of ?G raw] by blast
  then show ?thesis
    by (simp add: emailMatch_def rx_match1_def)
qed

lemma email_shaped_Nil: "\<not> email_shaped []"
  by (simp add: email_shaped_def)

section \<open>Case\<close>

lemma space_not_letter: "is_space c \<Longrightarrow> \<not> is_letter c"
  by (auto simp: is_space_def is_letter_def)

lemma digit_not_letter: "is_digit c \<Longrightarrow> \<not> is_letter c"
  by (auto simp: is_digit_def is_letter_def)

lemma canon_plain: "\<not> is_letter c \<Longrightarrow> canon c = c"
  by (simp add: canon_def is_letter_def)

lemma is_space_ci: "canon c = canon c' \<Longrightarrow> is_space c \<longleftrightarrow> is_space c'"
proof
  assume e: "canon c = canon c'" and s: "is_space c"
  then have "\<not> is_letter c" by (simp add: space_not_letter)
  with e have "c' = c" by (auto intro: canon_eq_plain [of c c'])
  with s show "is_space c'" by simp
next
  assume e: "canon c = canon c'" and s: "is_space c'"
  then have "\<not> is_letter c'" by (simp add: space_not_letter)
  with e have "c = c'" by (auto intro: canon_eq_plain [of c' c])
  with s show "is_space c" by simp
qed

lemma ci_inv_lit: "ci_inv (rx_lit_i p)"
  unfolding ci_inv_def
proof (intro allI impI)
  fix s s' :: jsstring
  assume "map canon s = map canon s'"
  then show "list_all2 (\<lambda>r r'. map canon r = map canon r') (rx_lit_i p s) (rx_lit_i p s')"
  proof (induction p s arbitrary: s' rule: rx_lit_i.induct)
    case (1 s)
    then show ?case by simp
  next
    case (2 p ps)
    then show ?case by simp
  next
    case (3 p ps c cs)
    then obtain c' cs' where s': "s' = c' # cs'" "canon c = canon c'" "map canon cs = map canon cs'"
      by (cases s') auto
    with 3(1) [of cs'] show ?case by simp
  qed
qed

lemma ci_inv_star: "ci_inv (rx_star is_space)"
  unfolding ci_inv_def
proof (intro allI impI)
  fix s s' :: jsstring
  assume "map canon s = map canon s'"
  then show "list_all2 (\<lambda>r r'. map canon r = map canon r') (rx_star is_space s) (rx_star is_space s')"
  proof (induction s arbitrary: s')
    case Nil
    then show ?case by simp
  next
    case (Cons c cs)
    then obtain c' cs' where s': "s' = c' # cs'" "canon c = canon c'" "map canon cs = map canon cs'"
      by (cases s') auto
    from s'(2) have "is_space c \<longleftrightarrow> is_space c'" by (rule is_space_ci)
    with Cons.IH [of cs'] s' show ?case
      by (auto intro!: list_all2_appendI)
  qed
qed

lemma list_all2_concat_map:
  assumes "list_all2 R xs ys" and "\<And>x y. R x y \<Longrightarrow> list_all2 R (f x) (f y)"
  shows "list_all2 R (concat (map f xs)) (concat (map f ys))"
  using assms(1)
proof (induction rule: list_all2_induct)
  case Nil
  show ?case by simp
next
  case (Cons x xs y ys)
  then show ?case
    by (auto intro!: list_all2_appendI assms(2))
qed

lemma ci_inv_seq: "list_all ci_inv ms \<Longrightarrow> ci_inv (rx_seq ms)"
proof (induction ms)
  case Nil
  show ?case by (simp add: ci_inv_def)
next
  case (Cons m ms)
  then have m: "ci_inv m" and ms: "ci_inv (rx_seq ms)" by simp_all
  show ?case
    unfolding ci_inv_def
  proof (intro allI impI)
    fix s s' :: jsstring
    assume "map canon s = map canon s'"
    with m have "list_all2 (\<lambda>r r'. map canon r = map canon r') (m s) (m s')"
      by (simp add: ci_inv_def)
    then have "list_all2 (\<lambda>r r'. map canon r = map canon r')
        (concat (map (rx_seq ms) (m s))) (concat (map (rx_seq ms) (m s')))"
      using ms by (intro list_all2_concat_map) (simp_all add: ci_inv_def)
    then show "list_all2 (\<lambda>r r'. map canon r = map canon r') (rx_seq (m # ms) s) (rx_seq (m # ms) s')"
      by simp
  qed
qed

lemma sfx_lit: "sfx (rx_lit_i p)"
  by (auto simp: sfx_def in_rx_lit_i)

lemma sfx_star: "sfx (rx_star P)"
  by (auto simp: sfx_def in_rx_star)

lemma sfx_seq: "list_all sfx ms \<Longrightarrow> sfx (rx_seq ms)"
proof (induction ms)
  case Nil
  show ?case by (simp add: sfx_def)
next
  case (Cons m ms)
  then have m: "sfx m" and ms: "sfx (rx_seq ms)" by simp_all
  show ?case
    unfolding sfx_def
  proof (intro allI impI)
    fix s r
    assume "r \<in> set (rx_seq (m # ms) s)"
    then obtain t where "t \<in> set (m s)" "r \<in> set (rx_seq ms t)"
      by auto
    with m ms obtain w w' where "s = w @ t" "t = w' @ r"
      unfolding sfx_def by blast
    then have "s = (w @ w') @ r" by simp
    then show "\<exists>w. s = w @ r" by blast
  qed
qed

text \<open>A label in any case, in front of the same text.\<close>

lemma label_ci:
  assumes "ci_inv L" and "sfx L" and "map canon lab = map canon p" and "L (p @ r) = [r]"
  shows "L (lab @ r) = [r]"
proof -
  have "map canon (lab @ r) = map canon (p @ r)"
    using assms(3) by simp
  with assms(1) have "list_all2 (\<lambda>r r'. map canon r = map canon r') (L (lab @ r)) (L (p @ r))"
    unfolding ci_inv_def by blast
  with assms(4) obtain x where x: "L (lab @ r) = [x]" "map canon x = map canon r"
    by (auto simp: list_all2_Cons2)
  then have "x \<in> set (L (lab @ r))" by simp
  with assms(2) obtain w where w: "lab @ r = w @ x"
    unfolding sfx_def by blast
  from x(2) have "length x = length r"
    by (rule map_eq_imp_length_eq)
  with w have "x = r"
    by (metis append_eq_append_conv length_append add_right_cancel)
  with x(1) show ?thesis by simp
qed

lemma kartu_label_ci:
  "map canon lab = map canon (js ''4 digit Akhir Kartu:'') \<Longrightarrow> kartu_label (lab @ r) = [r]"
proof (rule label_ci)
  show "ci_inv kartu_label"
    unfolding kartu_label_def by (intro ci_inv_seq) (simp add: ci_inv_lit ci_inv_star)
  show "sfx kartu_label"
    unfolding kartu_label_def by (intro sfx_seq) (simp add: sfx_lit sfx_star)
  show "kartu_label (js ''4 digit Akhir Kartu:'' @ r) = [r]"
    by (simp add: kartu_label_def js_def canon_cu_eq is_space_def unat_cu)
qed

lemma merchant_label_ci:
  "map canon lab = map canon (js ''Merchant/ATM:'') \<Longrightarrow> merchant_label (lab @ r) = [r]"
proof (rule label_ci)
  show "ci_inv merchant_label"
    unfolding merchant_label_def by (intro ci_inv_seq) (simp add: ci_inv_lit ci_inv_star)
  show "sfx merchant_label"
    unfolding merchant_label_def by (intro sfx_seq) (simp add: sfx_lit sfx_star)
  show "merchant_label (js ''Merchant/ATM:'' @ r) = [r]"
    by (simp add: merchant_label_def js_def canon_cu_eq is_space_def unat_cu)
qed

lemma tanggal_label_ci:
  "map canon lab = map canon (js ''Tanggal Transaksi:'') \<Longrightarrow> tanggal_label (lab @ r) = [r]"
proof (rule label_ci)
  show "ci_inv tanggal_label"
    unfolding tanggal_label_def by (intro ci_inv_seq) (simp add: ci_inv_lit ci_inv_star)
  show "sfx tanggal_label"
    unfolding tanggal_label_def by (intro sfx_seq) (simp add: sfx_lit sfx_star)
  show "tanggal_label (js ''Tanggal Transaksi:'' @ r) = [r]"
    by (simp add: tanggal_label_def js_def canon_cu_eq is_space_def unat_cu)
qed

lemma nominal_label_ci:
  "map canon lab = map canon (js ''Nominal:'') \<Longrightarrow> nominal_label (lab @ r) = [r]"
proof (rule label_ci)
  show "ci_inv nominal_label"
    unfolding nominal_label_def by (intro ci_inv_seq) (simp add: ci_inv_lit ci_inv_star)
  show "sfx nominal_label"
    unfolding nominal_label_def by (intro sfx_seq) (simp add: sfx_lit sfx_star)
  show "nominal_label (js ''Nominal:'' @ r) = [r]"
    by (simp add: nominal_label_def js_def canon_cu_eq is_space_def unat_cu)
qed

section \<open>A pattern behind its label\<close>

lemma rx_group_seq_Cons:
  "rx_group (rx_seq (L # ms)) grp post t = concat (map (rx_group (rx_seq ms) grp post) (L t))"
proof -
  have "concat (map k (concat (map m xs))) = concat (map (\<lambda>x. concat (map k (m x))) xs)"
    for k :: "jsstring \<Rightarrow> (jsstring \<times> jsstring) list" and m :: matcher and xs
    by (induction xs) simp_all
  then show ?thesis
    unfolding rx_group_def [abs_def] by simp
qed

lemma rx_search_hd: "m s \<noteq> [] \<Longrightarrow> rx_search m s = Some (hd (m s))"
  by (cases "m s") (simp_all add: rx_search_first)

lemma ci_nonempty: "map canon lab = map canon (js (c # cs)) \<Longrightarrow> lab \<noteq> []"
  by (auto simp: js_def)

text \<open>The value patterns stop at once at \<open>&nbsp;\<close>.\<close>

lemma value_stops_at_nbsp:
  assumes "L (lab @ js ''&nbsp;'' @ v) = [js ''&nbsp;'' @ v]"
  shows "rx_match1 (rx_seq [L, rx_star is_space]) (rx_star_lazy dot) value_end
           (lab @ js ''&nbsp;'' @ v) = Some []"
proof -
  let ?G = "rx_group (rx_seq [L, rx_star is_space]) (rx_star_lazy dot) value_end"
  have "?G (lab @ js ''&nbsp;'' @ v) =
      rx_group (rx_seq [rx_star is_space]) (rx_star_lazy dot) value_end (js ''&nbsp;'' @ v)"
    by (simp add: rx_group_seq_Cons assms)
  also have "\<dots> \<noteq> [] \<and> fst (hd \<dots>) = []"
    by (simp add: rx_group_def value_end_def js_def canon_cu_eq cu_eq_iff class_defs unat_cu)
  finally have "?G (lab @ js ''&nbsp;'' @ v) \<noteq> [] \<and> fst (hd (?G (lab @ js ''&nbsp;'' @ v))) = []" .
  then show ?thesis
    by (simp add: rx_match1_def rx_search_hd)
qed


text \<open>The card pattern: an optional \<open>&nbsp;\<close> behind the colon, then four digits.\<close>

lemma digit_facts:
  assumes "is_digit c"
  shows "\<not> is_space c" "canon c \<noteq> canon (cu CHR ''&'')" "c \<noteq> cu CHR ''<''" "c \<noteq> cu CHR ''&''"
proof -
  show "\<not> is_space c" using assms by (auto simp: is_digit_def is_space_def)
  have n: "\<not> is_digit (cu CHR ''&'')" "\<not> is_digit (cu CHR ''<'')"
    by (simp_all add: is_digit_def unat_cu)
  with assms show "c \<noteq> cu CHR ''<''" "c \<noteq> cu CHR ''&''" by auto
  have "\<not> is_letter (cu CHR ''&'')" by (simp add: is_letter_def unat_cu)
  then have "canon (cu CHR ''&'') = cu CHR ''&''" by (rule canon_plain)
  moreover have "canon c = c" using assms by (intro canon_plain digit_not_letter)
  ultimately show "canon c \<noteq> canon (cu CHR ''&'')"
    using \<open>c \<noteq> cu CHR ''&''\<close> by simp
qed

lemma four_digits:
  assumes "length d = 4" and "list_all is_digit d"
  shows "\<exists>d1 d2 d3 d4. d = [d1, d2, d3, d4] \<and> is_digit d1 \<and> is_digit d2 \<and> is_digit d3 \<and> is_digit d4"
proof -
  from assms(1) obtain d1 d2 d3 d4 where "d = [d1, d2, d3, d4]"
    by (auto simp: length_Suc_conv numeral_eq_Suc)
  with assms(2) show ?thesis by simp
qed

lemma card_after_nbsp:
  assumes L: "L (lab @ opt @ d @ rest) = [opt @ d @ rest]"
    and opt: "opt = [] \<or> opt = js ''&nbsp;''"
    and d: "length d = 4" "list_all is_digit d"
  shows "rx_match1 (rx_seq [L, rx_star is_space, rx_opt (rx_lit_i (js ''&nbsp;'')), rx_star is_space])
           (rx_seq [rx_chr is_digit, rx_chr is_digit, rx_chr is_digit, rx_chr is_digit])
           (rx_seq []) (lab @ opt @ d @ rest) = Some d"
proof -
  let ?pre = "rx_seq [rx_star is_space, rx_opt (rx_lit_i (js ''&nbsp;'')), rx_star is_space]"
  let ?grp = "rx_seq [rx_chr is_digit, rx_chr is_digit, rx_chr is_digit, rx_chr is_digit]"
  let ?G = "rx_group (rx_seq [L, rx_star is_space, rx_opt (rx_lit_i (js ''&nbsp;'')), rx_star is_space])
      ?grp (rx_seq [])"
  from d obtain d1 d2 d3 d4 where dd: "d = [d1, d2, d3, d4]" "is_digit d1" "is_digit d2"
    "is_digit d3" "is_digit d4"
    using four_digits by blast
  note f = digit_facts [OF dd(2)]
  have e: "?G (lab @ opt @ d @ rest) = rx_group ?pre ?grp (rx_seq []) (opt @ d @ rest)"
    by (simp add: rx_group_seq_Cons L)
  have "rx_group ?pre ?grp (rx_seq []) (opt @ d @ rest) \<noteq> [] \<and>
      fst (hd (rx_group ?pre ?grp (rx_seq []) (opt @ d @ rest))) = d"
  proof (cases "opt = []")
    case True
    then show ?thesis
      using dd f by (simp add: rx_group_def rx_opt_def js_def)
  next
    case False
    with opt have "opt = js ''&nbsp;''" by simp
    then show ?thesis
      using dd f
      by (simp add: rx_group_def rx_opt_def js_def canon_cu_eq cu_eq_iff is_space_def is_digit_def
          unat_cu)
  qed
  with e have "?G (lab @ opt @ d @ rest) \<noteq> [] \<and> fst (hd (?G (lab @ opt @ d @ rest))) = d"
    by simp
  then show ?thesis
    by (simp add: rx_match1_def rx_search_hd)
qed

lemma trim_id: "s = [] \<or> (\<not> is_space (hd s) \<and> \<not> is_space (last s)) \<Longrightarrow> trim s = s"
proof (cases "s = []")
  case True
  then show ?thesis by (simp add: trim_def)
next
  case False
  assume "s = [] \<or> (\<not> is_space (hd s) \<and> \<not> is_space (last s))"
  with False have h: "\<not> is_space (hd s)" and l: "\<not> is_space (last s)" by auto
  have "dropWhile is_space s = s"
    using h by (simp add: dropWhile_id)
  moreover have "dropWhile is_space (rev s) = rev s"
    using l False by (intro dropWhile_id) (simp add: hd_rev)
  ultimately show ?thesis
    by (simp add: trim_def)
qed

lemma clean_digits:
  assumes "length d = 4" and "list_all is_digit d"
  shows "clean d = d"
proof -
  from assms obtain d1 d2 d3 d4 where dd: "d = [d1, d2, d3, d4]" "is_digit d1" "is_digit d2"
    "is_digit d3" "is_digit d4"
    using four_digits by blast
  have "cu CHR ''<'' \<notin> set d"
    using dd digit_facts(3) by auto
  moreover have "\<not> has_nbsp d"
    using dd by (simp add: js_def)
  ultimately have "clean d = trim d"
    by (rule clean_plain)
  moreover have "trim d = d"
    using dd digit_facts(1) by (intro trim_id) simp
  ultimately show ?thesis by simp
qed

section \<open>Evaluation at concrete inputs\<close>

lemma matches_of_empty:
  "kartuMatch [] = None" "merchantMatch [] = None" "tanggalMatch [] = None" "nominalMatch [] = None"
  by (simp_all add: eval)

lemma merchant_tag_only: "merchantMatch (js ''Merchant/ATM: <b><br>'') = Some (js ''<b>'')"
  by (simp add: eval)

lemma clean_tag_only: "clean (js ''<b>'') = []"
  by (simp add: eval)

lemma transaction_example:
  "parseTransactionDetails (js ''4 digit Akhir Kartu: 1234<br>Merchant/ATM: Starbucks<br>Tanggal Transaksi: 01/01/2024<br>Nominal: Rp 50.000'')
   = \<lparr>akhirKartu = js ''1234'', merchant = js ''Starbucks'', tanggalTransaksi = js ''01/01/2024'',
      nominal = js ''N/A''\<rparr>"
  by (simp add: eval)

lemma transaction_example_br:
  "nominalMatch (js ''4 digit Akhir Kartu: 1234<br>Merchant/ATM: Starbucks<br>Tanggal Transaksi: 01/01/2024<br>Nominal: Rp 50.000<br>'')
   = Some (js ''Rp 50.000'')"
  by (simp add: eval)

lemma clean_amount: "clean (js ''Rp 50.000'') = js ''Rp 50.000''"
  by (simp add: eval)

lemma clean_entities:
  "clean (js ''&lt;'') = js ''&lt;''" "clean (js ''&gt;'') = js ''&gt;''"
  "clean (js ''&amp;'') = js ''&amp;''"
  by (simp_all add: eval)

lemma midline_sender:
  "normalized (js ''Mail From: bob@example.com'') = js ''Mail From: bob@example.com''"
  "from' (parseForwardedMail (js ''Mail From: bob@example.com'')) = Some (js ''bob@example.com'')"
  by (simp_all add: eval)

lemma empty_sender:
  "fromMatch (normalized (js ''From:'')) = Some []"
  "from' (parseForwardedMail (js ''From:'')) = None"
  by (simp_all add: eval)

lemma tags_only_date:
  "dateMatch (normalized (js ''Date: <b></b>'')) = Some (js ''<b></b>'')"
  "date (parseForwardedMail (js ''Date: <b></b>'')) = Some []"
  by (simp_all add: eval)

lemma small_header:
  "parseForwardedMail (js ''Fwd: From: a@b.cc\<newline>Sent: 1 Jan<br>Subject: s'') =
     \<lparr>from' = Some (js ''a@b.cc''), subject = Some (js ''s''), date = Some (js ''1 Jan'')\<rparr>"
  by (simp add: eval)

lemma small_header_matches:
  "fromMatch (normalized (js ''Fwd: From: a@b.cc\<newline>Sent: 1 Jan<br>Subject: s'')) = Some (js ''a@b.cc'')"
  "dateMatch (normalized (js ''Fwd: From: a@b.cc\<newline>Sent: 1 Jan<br>Subject: s'')) = Some (js ''1 Jan'')"
  "subjectMatch (normalized (js ''Fwd: From: a@b.cc\<newline>Sent: 1 Jan<br>Subject: s'')) = Some (js ''s'')"
  by (simp_all add: eval)

lemma forwarded_example:
  "parseForwardedMail (js ''From: Jane Doe <jane@example.com>\<newline>Date: Mon, 1 Jan 2024\<newline>Subject: Hello'') =
     \<lparr>from' = Some (js ''jane@example.com''), subject = Some (js ''Hello''),
      date = Some (js ''Mon, 1 Jan 2024'')\<rparr>"
  by (simp add: eval)

lemma forwarded_example_raw:
  "fromMatch (normalized (js ''From: Jane Doe <jane@example.com>\<newline>Date: Mon, 1 Jan 2024\<newline>Subject: Hello'')) =
     Some (js ''Jane Doe <jane@example.com>'')"
  by (simp add: eval)

lemma example_address_shaped: "email_shaped (js ''jane@example.com'')"
  by (simp add: email_shaped_def js_def cu_eq_iff class_defs unat_cu)

lemma merchant_nbsp_example:
  "merchant (parseTransactionDetails (js ''Merchant/ATM:&nbsp;Starbucks<br>'')) = js ''N/A''"
  "clean (js ''Starbucks'') = js ''Starbucks''"
  by (simp_all add: eval)

lemma label_variants:
  "map canon (js ''4 DIGIT akhir kartu:'') = map canon (js ''4 digit Akhir Kartu:'')"
  "map canon (js ''MERCHANT/atm:'') = map canon (js ''Merchant/ATM:'')"
  "map canon (js ''tanggal transaksi:'') = map canon (js ''Tanggal Transaksi:'')"
  "map canon (js ''NOMINAL:'') = map canon (js ''Nominal:'')"
  "length (js ''9876'') = 4" "list_all is_digit (js ''9876'')"
  by (simp_all add: js_def canon_cu_eq is_digit_def unat_cu)

lemma small_fields_matches:
  "kartuMatch (js ''4 digit Akhir Kartu: 1234'') = Some (js ''1234'')"
  "tanggalMatch (js ''Tanggal Transaksi: 1 Jan<br>'') = Some (js ''1 Jan'')"
  "nominalMatch (js ''Nominal: Rp 5<br>'') = Some (js ''Rp 5'')"
  by (simp_all add: eval)

lemma merchant_nbsp_matches:
  "kartuMatch (js ''Merchant/ATM:&nbsp;Starbucks<br>'') = None"
  "merchantMatch (js ''Merchant/ATM:&nbsp;Starbucks<br>'') = Some []"
  "tanggalMatch (js ''Merchant/ATM:&nbsp;Starbucks<br>'') = None"
  "nominalMatch (js ''Merchant/ATM:&nbsp;Starbucks<br>'') = None"
  by (simp_all add: eval)

section \<open>The claims\<close>

lemma field_of_nonempty: "c \<noteq> [] \<Longrightarrow> field_of (Some c) = clean c"
  by (simp add: field_of_def)

text \<open>
  C1, as amended. A header field is set exactly when its pattern matches and the captured
  text is not the empty string: the guard tests the capture, so a match with an empty
  capture leaves the field unset. A capture that is not empty does not start with white
  space, so it is never white space only; cleaning can still leave nothing of it, and then
  the field is present and empty, as for the date \<open><b></b>\<close>.
\<close>

theorem presence_by_nonempty_capture:
  "(from' (parseForwardedMail content) \<noteq> None \<longleftrightarrow>
      (\<exists>c. fromMatch (normalized content) = Some c \<and> c \<noteq> [])) \<and>
   (date (parseForwardedMail content) \<noteq> None \<longleftrightarrow>
      (\<exists>c. dateMatch (normalized content) = Some c \<and> c \<noteq> [])) \<and>
   (subject (parseForwardedMail content) \<noteq> None \<longleftrightarrow>
      (\<exists>c. subjectMatch (normalized content) = Some c \<and> c \<noteq> [])) \<and>
   (fromMatch (normalized content) = Some c \<longrightarrow> c = [] \<or> \<not> is_space (hd c)) \<and>
   (dateMatch (normalized content) = Some c \<longrightarrow> c = [] \<or> \<not> is_space (hd c)) \<and>
   (subjectMatch (normalized content) = Some c \<longrightarrow> c = [] \<or> \<not> is_space (hd c)) \<and>
   dateMatch (normalized (js ''Date: <b></b>'')) = Some (js ''<b></b>'') \<and>
   date (parseForwardedMail (js ''Date: <b></b>'')) = Some []"
proof -
  have "from' (parseForwardedMail content) \<noteq> None \<longleftrightarrow>
      (\<exists>c. fromMatch (normalized content) = Some c \<and> c \<noteq> [])"
    by (auto simp: parseForwardedMail_def from_of_None)
  moreover have "date (parseForwardedMail content) \<noteq> None \<longleftrightarrow>
      (\<exists>c. dateMatch (normalized content) = Some c \<and> c \<noteq> [])"
    by (auto simp: parseForwardedMail_def line_of_None)
  moreover have "subject (parseForwardedMail content) \<noteq> None \<longleftrightarrow>
      (\<exists>c. subjectMatch (normalized content) = Some c \<and> c \<noteq> [])"
    by (auto simp: parseForwardedMail_def line_of_None)
  moreover have "c = [] \<or> \<not> is_space (hd c)" if "fromMatch (normalized content) = Some c"
    using that unfolding fromMatch_def by (rule capture_not_space)
  moreover have "c = [] \<or> \<not> is_space (hd c)" if "dateMatch (normalized content) = Some c"
    using that unfolding dateMatch_def by (rule capture_not_space)
  moreover have "c = [] \<or> \<not> is_space (hd c)" if "subjectMatch (normalized content) = Some c"
    using that unfolding subjectMatch_def by (rule capture_not_space)
  ultimately show ?thesis
    using tags_only_date by blast
qed

theorem presence_by_nonempty_capture_witness:
  "fromMatch (normalized (js ''Fwd: From: a@b.cc\<newline>Sent: 1 Jan<br>Subject: s'')) = Some (js ''a@b.cc'') \<and>
   \<not> is_space (hd (js ''a@b.cc'')) \<and>
   from' (parseForwardedMail (js ''Fwd: From: a@b.cc\<newline>Sent: 1 Jan<br>Subject: s'')) \<noteq> None \<and>
   dateMatch (normalized (js ''Fwd: From: a@b.cc\<newline>Sent: 1 Jan<br>Subject: s'')) = Some (js ''1 Jan'') \<and>
   \<not> is_space (hd (js ''1 Jan'')) \<and>
   date (parseForwardedMail (js ''Fwd: From: a@b.cc\<newline>Sent: 1 Jan<br>Subject: s'')) \<noteq> None \<and>
   subjectMatch (normalized (js ''Fwd: From: a@b.cc\<newline>Sent: 1 Jan<br>Subject: s'')) = Some (js ''s'') \<and>
   \<not> is_space (hd (js ''s'')) \<and>
   subject (parseForwardedMail (js ''Fwd: From: a@b.cc\<newline>Sent: 1 Jan<br>Subject: s'')) \<noteq> None"
  using presence_by_nonempty_capture
      [of "js ''Fwd: From: a@b.cc\<newline>Sent: 1 Jan<br>Subject: s''" "js ''a@b.cc''"]
    presence_by_nonempty_capture
      [of "js ''Fwd: From: a@b.cc\<newline>Sent: 1 Jan<br>Subject: s''" "js ''1 Jan''"]
    presence_by_nonempty_capture
      [of "js ''Fwd: From: a@b.cc\<newline>Sent: 1 Jan<br>Subject: s''" "js ''s''"]
  by (simp add: small_header_matches js_Nil_iff)

text \<open>The sender pattern matches \<open>From:\<close> with an empty capture, and the sender is unset.\<close>

theorem empty_capture_counterexample:
  "fromMatch (normalized (js ''From:'')) = Some [] \<and>
   from' (parseForwardedMail (js ''From:'')) = None"
  by (simp add: empty_sender)

text \<open>
  C2, as amended. On the example string the card suffix, the merchant and the date are
  extracted, and the amount stays at its default: the amount runs to the end of the input,
  and the pattern needs one of \<open><br\<close>, \<open></p>\<close>, \<open>&nbsp;\<close> or a newline after the
  value. With \<open><br>\<close> after it the amount is \<open>Rp 50.000\<close>.
\<close>

theorem transaction_example_amount_default:
  "parseTransactionDetails (js ''4 digit Akhir Kartu: 1234<br>Merchant/ATM: Starbucks<br>Tanggal Transaksi: 01/01/2024<br>Nominal: Rp 50.000'')
   = \<lparr>akhirKartu = js ''1234'', merchant = js ''Starbucks'', tanggalTransaksi = js ''01/01/2024'',
      nominal = js ''N/A''\<rparr> \<and>
   nominal (parseTransactionDetails (js ''4 digit Akhir Kartu: 1234<br>Merchant/ATM: Starbucks<br>Tanggal Transaksi: 01/01/2024<br>Nominal: Rp 50.000<br>''))
   = js ''Rp 50.000''"
  by (simp add: transaction_example)
    (simp add: parseTransactionDetails_def transaction_example_br field_of_def clean_amount js_Nil_iff)

text \<open>The record with the amount \<open>Rp 50.000\<close> is not the result.\<close>

theorem transaction_example_counterexample:
  "parseTransactionDetails (js ''4 digit Akhir Kartu: 1234<br>Merchant/ATM: Starbucks<br>Tanggal Transaksi: 01/01/2024<br>Nominal: Rp 50.000'')
   \<noteq> \<lparr>akhirKartu = js ''1234'', merchant = js ''Starbucks'', tanggalTransaksi = js ''01/01/2024'',
      nominal = js ''Rp 50.000''\<rparr>"
  by (simp add: transaction_example js_eq_iff)

text \<open>
  C3, as amended. A header field is set only when its pattern matches the normalized text
  with a non-empty capture. The patterns are not anchored to the start of a line: the
  label may stand anywhere, also in the middle of a line. The match used is the leftmost
  one; after the label and the white space behind it (which may hold newlines) the capture
  holds no line terminator and runs to the next newline or to the end of the text.
\<close>

theorem header_label_anywhere:
  "(from' (parseForwardedMail content) = Some v \<longrightarrow>
      (\<exists>cap. fromMatch (normalized content) = Some cap \<and> cap \<noteq> [] \<and>
         first_line_match from_label [js ''Dari:'', js ''From:''] (normalized content) cap)) \<and>
   (date (parseForwardedMail content) = Some v \<longrightarrow>
      (\<exists>cap. dateMatch (normalized content) = Some cap \<and> cap \<noteq> [] \<and>
         first_line_match date_label [js ''Date:'', js ''Tanggal:'', js ''Sent:''] (normalized content) cap)) \<and>
   (subject (parseForwardedMail content) = Some v \<longrightarrow>
      (\<exists>cap. subjectMatch (normalized content) = Some cap \<and> cap \<noteq> [] \<and>
         first_line_match subject_label [js ''Subject:''] (normalized content) cap)) \<and>
   from' (parseForwardedMail (js ''Mail From: bob@example.com'')) = Some (js ''bob@example.com'')"
proof (intro conjI impI)
  assume "from' (parseForwardedMail content) = Some v"
  then obtain cap where c: "fromMatch (normalized content) = Some cap" "cap \<noteq> []"
    using from_of_Some by (auto simp: parseForwardedMail_def)
  from c(1) have "first_line_match from_label [js ''Dari:'', js ''From:''] (normalized content) cap"
    unfolding fromMatch_def by (rule line_match_shape [OF from_label_lits])
  with c show "\<exists>cap. fromMatch (normalized content) = Some cap \<and> cap \<noteq> [] \<and>
      first_line_match from_label [js ''Dari:'', js ''From:''] (normalized content) cap"
    by blast
next
  assume "date (parseForwardedMail content) = Some v"
  then obtain cap where c: "dateMatch (normalized content) = Some cap" "cap \<noteq> []"
    using line_of_Some by (auto simp: parseForwardedMail_def)
  from c(1) have "first_line_match date_label [js ''Date:'', js ''Tanggal:'', js ''Sent:'']
      (normalized content) cap"
    unfolding dateMatch_def by (rule line_match_shape [OF date_label_lits])
  with c show "\<exists>cap. dateMatch (normalized content) = Some cap \<and> cap \<noteq> [] \<and>
      first_line_match date_label [js ''Date:'', js ''Tanggal:'', js ''Sent:''] (normalized content) cap"
    by blast
next
  assume "subject (parseForwardedMail content) = Some v"
  then obtain cap where c: "subjectMatch (normalized content) = Some cap" "cap \<noteq> []"
    using line_of_Some by (auto simp: parseForwardedMail_def)
  from c(1) have "first_line_match subject_label [js ''Subject:''] (normalized content) cap"
    unfolding subjectMatch_def by (rule line_match_shape [OF subject_label_lits])
  with c show "\<exists>cap. subjectMatch (normalized content) = Some cap \<and> cap \<noteq> [] \<and>
      first_line_match subject_label [js ''Subject:''] (normalized content) cap"
    by blast
next
  show "from' (parseForwardedMail (js ''Mail From: bob@example.com'')) = Some (js ''bob@example.com'')"
    by (rule midline_sender)
qed

theorem header_label_anywhere_witness:
  "from' (parseForwardedMail (js ''Fwd: From: a@b.cc\<newline>Sent: 1 Jan<br>Subject: s'')) = Some (js ''a@b.cc'') \<and>
   date (parseForwardedMail (js ''Fwd: From: a@b.cc\<newline>Sent: 1 Jan<br>Subject: s'')) = Some (js ''1 Jan'') \<and>
   subject (parseForwardedMail (js ''Fwd: From: a@b.cc\<newline>Sent: 1 Jan<br>Subject: s'')) = Some (js ''s'') \<and>
   (\<exists>cap. first_line_match from_label [js ''Dari:'', js ''From:'']
      (normalized (js ''Fwd: From: a@b.cc\<newline>Sent: 1 Jan<br>Subject: s'')) cap) \<and>
   (\<exists>cap. first_line_match date_label [js ''Date:'', js ''Tanggal:'', js ''Sent:'']
      (normalized (js ''Fwd: From: a@b.cc\<newline>Sent: 1 Jan<br>Subject: s'')) cap) \<and>
   (\<exists>cap. first_line_match subject_label [js ''Subject:'']
      (normalized (js ''Fwd: From: a@b.cc\<newline>Sent: 1 Jan<br>Subject: s'')) cap)"
  using header_label_anywhere [of "js ''Fwd: From: a@b.cc\<newline>Sent: 1 Jan<br>Subject: s''" "js ''a@b.cc''"]
    header_label_anywhere [of "js ''Fwd: From: a@b.cc\<newline>Sent: 1 Jan<br>Subject: s''" "js ''1 Jan''"]
    header_label_anywhere [of "js ''Fwd: From: a@b.cc\<newline>Sent: 1 Jan<br>Subject: s''" "js ''s''"]
  by (simp only: small_header ForwardedHeader.simps simp_thms) blast

text \<open>
  A sender label in the middle of the only line: the normalized text is the text, and the
  sender is set.
\<close>

theorem header_label_midline_counterexample:
  "normalized (js ''Mail From: bob@example.com'') = js ''Mail From: bob@example.com'' \<and>
   from' (parseForwardedMail (js ''Mail From: bob@example.com'')) = Some (js ''bob@example.com'')"
  by (simp add: midline_sender)

text \<open>
  C4, as amended. Each label is found in any case: written in any case in front of a text,
  the label pattern matches and leaves that text. Only the card pattern allows a
  \<open>&nbsp;\<close> directly behind the colon and still captures the four digits that
  follow. In the patterns of the merchant, the date and the amount \<open>&nbsp;\<close> ends the
  value: behind the colon the pattern matches with an empty capture, and the field keeps
  its default.
\<close>

theorem nbsp_after_colon:
  "(map canon lab = map canon (js ''4 digit Akhir Kartu:'') \<and> (opt = [] \<or> opt = js ''&nbsp;'') \<and>
    length d = 4 \<and> list_all is_digit d \<longrightarrow>
      kartu_label (lab @ opt @ d @ rest) = [opt @ d @ rest] \<and>
      kartuMatch (lab @ opt @ d @ rest) = Some d \<and>
      akhirKartu (parseTransactionDetails (lab @ opt @ d @ rest)) = d) \<and>
   (map canon lab = map canon (js ''Merchant/ATM:'') \<longrightarrow>
      merchant_label (lab @ js ''&nbsp;'' @ v) = [js ''&nbsp;'' @ v] \<and>
      merchantMatch (lab @ js ''&nbsp;'' @ v) = Some [] \<and>
      merchant (parseTransactionDetails (lab @ js ''&nbsp;'' @ v)) = js ''N/A'') \<and>
   (map canon lab = map canon (js ''Tanggal Transaksi:'') \<longrightarrow>
      tanggal_label (lab @ js ''&nbsp;'' @ v) = [js ''&nbsp;'' @ v] \<and>
      tanggalMatch (lab @ js ''&nbsp;'' @ v) = Some [] \<and>
      tanggalTransaksi (parseTransactionDetails (lab @ js ''&nbsp;'' @ v)) = js ''N/A'') \<and>
   (map canon lab = map canon (js ''Nominal:'') \<longrightarrow>
      nominal_label (lab @ js ''&nbsp;'' @ v) = [js ''&nbsp;'' @ v] \<and>
      nominalMatch (lab @ js ''&nbsp;'' @ v) = Some [] \<and>
      nominal (parseTransactionDetails (lab @ js ''&nbsp;'' @ v)) = js ''N/A'')"
proof (intro conjI impI)
  assume h: "map canon lab = map canon (js ''4 digit Akhir Kartu:'') \<and> (opt = [] \<or> opt = js ''&nbsp;'') \<and>
    length d = 4 \<and> list_all is_digit d"
  then have ne: "lab \<noteq> []" by (auto simp: js_def)
  from h show l: "kartu_label (lab @ opt @ d @ rest) = [opt @ d @ rest]"
    by (simp add: kartu_label_ci)
  with h show k: "kartuMatch (lab @ opt @ d @ rest) = Some d"
    unfolding kartuMatch_def by (intro card_after_nbsp) simp_all
  moreover have "d \<noteq> []" using h by auto
  moreover have "clean d = d" using h by (intro clean_digits) simp_all
  ultimately show "akhirKartu (parseTransactionDetails (lab @ opt @ d @ rest)) = d"
    using ne by (simp add: parseTransactionDetails_def field_of_def)
next
  assume h: "map canon lab = map canon (js ''Merchant/ATM:'')"
  then show l: "merchant_label (lab @ js ''&nbsp;'' @ v) = [js ''&nbsp;'' @ v]"
    by (rule merchant_label_ci)
  then show k: "merchantMatch (lab @ js ''&nbsp;'' @ v) = Some []"
    unfolding merchantMatch_def by (rule value_stops_at_nbsp)
  then show "merchant (parseTransactionDetails (lab @ js ''&nbsp;'' @ v)) = js ''N/A''"
    by (simp add: parseTransactionDetails_def field_of_def)
next
  assume h: "map canon lab = map canon (js ''Tanggal Transaksi:'')"
  then show l: "tanggal_label (lab @ js ''&nbsp;'' @ v) = [js ''&nbsp;'' @ v]"
    by (rule tanggal_label_ci)
  then show k: "tanggalMatch (lab @ js ''&nbsp;'' @ v) = Some []"
    unfolding tanggalMatch_def by (rule value_stops_at_nbsp)
  then show "tanggalTransaksi (parseTransactionDetails (lab @ js ''&nbsp;'' @ v)) = js ''N/A''"
    by (simp add: parseTransactionDetails_def field_of_def)
next
  assume h: "map canon lab = map canon (js ''Nominal:'')"
  then show l: "nominal_label (lab @ js ''&nbsp;'' @ v) = [js ''&nbsp;'' @ v]"
    by (rule nominal_label_ci)
  then show k: "nominalMatch (lab @ js ''&nbsp;'' @ v) = Some []"
    unfolding nominalMatch_def by (rule value_stops_at_nbsp)
  then show "nominal (parseTransactionDetails (lab @ js ''&nbsp;'' @ v)) = js ''N/A''"
    by (simp add: parseTransactionDetails_def field_of_def)
qed

theorem nbsp_after_colon_witness:
  "map canon (js ''4 DIGIT akhir kartu:'') = map canon (js ''4 digit Akhir Kartu:'') \<and>
   length (js ''9876'') = 4 \<and> list_all is_digit (js ''9876'') \<and>
   kartuMatch (js ''4 DIGIT akhir kartu:'' @ js ''&nbsp;'' @ js ''9876'' @ js ''<br>'') = Some (js ''9876'') \<and>
   akhirKartu (parseTransactionDetails (js ''4 DIGIT akhir kartu:'' @ js ''&nbsp;'' @ js ''9876'' @ js ''<br>'')) =
     js ''9876'' \<and>
   map canon (js ''MERCHANT/atm:'') = map canon (js ''Merchant/ATM:'') \<and>
   merchantMatch (js ''MERCHANT/atm:'' @ js ''&nbsp;'' @ js ''Starbucks<br>'') = Some [] \<and>
   merchant (parseTransactionDetails (js ''MERCHANT/atm:'' @ js ''&nbsp;'' @ js ''Starbucks<br>'')) = js ''N/A'' \<and>
   map canon (js ''tanggal transaksi:'') = map canon (js ''Tanggal Transaksi:'') \<and>
   tanggalMatch (js ''tanggal transaksi:'' @ js ''&nbsp;'' @ js ''01/01/2024<br>'') = Some [] \<and>
   tanggalTransaksi (parseTransactionDetails (js ''tanggal transaksi:'' @ js ''&nbsp;'' @ js ''01/01/2024<br>'')) =
     js ''N/A'' \<and>
   map canon (js ''NOMINAL:'') = map canon (js ''Nominal:'') \<and>
   nominalMatch (js ''NOMINAL:'' @ js ''&nbsp;'' @ js ''Rp 50.000<br>'') = Some [] \<and>
   nominal (parseTransactionDetails (js ''NOMINAL:'' @ js ''&nbsp;'' @ js ''Rp 50.000<br>'')) = js ''N/A''"
  using nbsp_after_colon [of "js ''4 DIGIT akhir kartu:''" "js ''&nbsp;''" "js ''9876''" "js ''<br>''"]
    nbsp_after_colon [of "js ''MERCHANT/atm:''" _ _ _ "js ''Starbucks<br>''"]
    nbsp_after_colon [of "js ''tanggal transaksi:''" _ _ _ "js ''01/01/2024<br>''"]
    nbsp_after_colon [of "js ''NOMINAL:''" _ _ _ "js ''Rp 50.000<br>''"]
    label_variants
  by blast

text \<open>
  The merchant of \<open>Merchant/ATM:&nbsp;Starbucks<br>\<close> is the default, not the cleaned
  value \<open>Starbucks\<close>.
\<close>

theorem nbsp_after_colon_counterexample:
  "merchant (parseTransactionDetails (js ''Merchant/ATM:&nbsp;Starbucks<br>'')) = js ''N/A'' \<and>
   clean (js ''Starbucks'') = js ''Starbucks'' \<and> js ''Starbucks'' \<noteq> js ''N/A''"
  by (simp add: merchant_nbsp_example js_eq_iff)

text \<open>
  C5. When the label of a field occurs nowhere in the input, the field keeps its default:
  \<open>N/A\<close> in \<open>parseTransactionDetails\<close>, unset in \<open>parseForwardedMail\<close>. Both
  functions are total: \<open>match\<close>, \<open>replace\<close> and \<open>trim\<close> are defined on every string
  and a capture is read from a match only. On the empty string every field has its default.
\<close>

theorem missing_label_leaves_default:
  "(\<not> occurs kartu_label html \<longrightarrow> akhirKartu (parseTransactionDetails html) = js ''N/A'') \<and>
   (\<not> occurs merchant_label html \<longrightarrow> merchant (parseTransactionDetails html) = js ''N/A'') \<and>
   (\<not> occurs tanggal_label html \<longrightarrow> tanggalTransaksi (parseTransactionDetails html) = js ''N/A'') \<and>
   (\<not> occurs nominal_label html \<longrightarrow> nominal (parseTransactionDetails html) = js ''N/A'') \<and>
   (\<not> occurs from_label content \<longrightarrow> from' (parseForwardedMail content) = None) \<and>
   (\<not> occurs date_label content \<longrightarrow> date (parseForwardedMail content) = None) \<and>
   (\<not> occurs subject_label content \<longrightarrow> subject (parseForwardedMail content) = None) \<and>
   parseTransactionDetails [] =
     \<lparr>akhirKartu = js ''N/A'', merchant = js ''N/A'', tanggalTransaksi = js ''N/A'',
      nominal = js ''N/A''\<rparr> \<and>
   parseForwardedMail [] = \<lparr>from' = None, subject = None, date = None\<rparr>"
proof -
  have "parseForwardedMail [] = \<lparr>from' = None, subject = None, date = None\<rparr>"
    by (simp add: eval replace_all_Nil)
  then show ?thesis
    by (simp add: parseTransactionDetails_def parseForwardedMail_def field_of_def from_of_def
        line_of_def kartuMatch_def merchantMatch_def tanggalMatch_def nominalMatch_def
        fromMatch_def dateMatch_def subjectMatch_def occurs_match1 from_label_normalized
        date_label_normalized subject_label_normalized)
qed

theorem missing_label_leaves_default_witness:
  "\<not> occurs kartu_label (js ''Saldo: 5<br>'') \<and> \<not> occurs merchant_label (js ''Saldo: 5<br>'') \<and>
   \<not> occurs tanggal_label (js ''Saldo: 5<br>'') \<and> \<not> occurs nominal_label (js ''Saldo: 5<br>'') \<and>
   parseTransactionDetails (js ''Saldo: 5<br>'') =
     \<lparr>akhirKartu = js ''N/A'', merchant = js ''N/A'', tanggalTransaksi = js ''N/A'',
      nominal = js ''N/A''\<rparr> \<and>
   \<not> occurs from_label (js ''Halo: x'') \<and> \<not> occurs date_label (js ''Halo: x'') \<and>
   \<not> occurs subject_label (js ''Halo: x'') \<and>
   parseForwardedMail (js ''Halo: x'') = \<lparr>from' = None, subject = None, date = None\<rparr>"
proof -
  have "\<not> occurs kartu_label (js ''Saldo: 5<br>'')" "\<not> occurs merchant_label (js ''Saldo: 5<br>'')"
    "\<not> occurs tanggal_label (js ''Saldo: 5<br>'')" "\<not> occurs nominal_label (js ''Saldo: 5<br>'')"
    "\<not> occurs from_label (js ''Halo: x'')" "\<not> occurs date_label (js ''Halo: x'')"
    "\<not> occurs subject_label (js ''Halo: x'')"
    by (simp_all add: occurs_def eval)
  then show ?thesis
    using missing_label_leaves_default [of "js ''Saldo: 5<br>''" "js ''Halo: x''"]
    by (simp add: TransactionFields.equality ForwardedHeader.equality)
qed

text \<open>
  C6. When the text captured after the sender label contains a piece of the shape of an
  address, the sender is such a piece and nothing else of the capture: the one that starts
  leftmost. On the forwarded block of the specification the sender is
  \<open>jane@example.com\<close>, the date \<open>Mon, 1 Jan 2024\<close> and the subject \<open>Hello\<close>.
\<close>

theorem sender_address_extracted:
  "(fromMatch (normalized content) = Some rawFrom \<and> rawFrom = a @ e @ b \<and> email_shaped e \<longrightarrow>
      (\<exists>a' e' b'. from' (parseForwardedMail content) = Some e' \<and> rawFrom = a' @ e' @ b' \<and>
         email_shaped e' \<and> length a' \<le> length a)) \<and>
   parseForwardedMail (js ''From: Jane Doe <jane@example.com>\<newline>Date: Mon, 1 Jan 2024\<newline>Subject: Hello'') =
     \<lparr>from' = Some (js ''jane@example.com''), subject = Some (js ''Hello''),
      date = Some (js ''Mon, 1 Jan 2024'')\<rparr>"
proof (intro conjI impI)
  assume h: "fromMatch (normalized content) = Some rawFrom \<and> rawFrom = a @ e @ b \<and> email_shaped e"
  then have "e \<noteq> []" using email_shaped_Nil by auto
  with h have ne: "rawFrom \<noteq> []" by simp
  from h have "emailMatch rawFrom \<noteq> None"
    using emailMatch_complete by blast
  then obtain e' where e': "emailMatch rawFrom = Some e'" by auto
  then obtain a' b' where s: "rawFrom = a' @ e' @ b'" "email_shaped e'"
    "\<forall>a'' e'' b''. rawFrom = a'' @ e'' @ b'' \<and> email_shaped e'' \<longrightarrow> length a' \<le> length a''"
    using emailMatch_sound by blast
  from s(3) h have "length a' \<le> length a" by blast
  moreover have "from' (parseForwardedMail content) = Some e'"
    using h ne e' by (simp add: parseForwardedMail_def from_of_def)
  ultimately show "\<exists>a' e' b'. from' (parseForwardedMail content) = Some e' \<and> rawFrom = a' @ e' @ b' \<and>
      email_shaped e' \<and> length a' \<le> length a"
    using s(1,2) by blast
next
  show "parseForwardedMail (js ''From: Jane Doe <jane@example.com>\<newline>Date: Mon, 1 Jan 2024\<newline>Subject: Hello'') =
     \<lparr>from' = Some (js ''jane@example.com''), subject = Some (js ''Hello''),
      date = Some (js ''Mon, 1 Jan 2024'')\<rparr>"
    by (rule forwarded_example)
qed

theorem sender_address_extracted_witness:
  "fromMatch (normalized (js ''From: Jane Doe <jane@example.com>\<newline>Date: Mon, 1 Jan 2024\<newline>Subject: Hello'')) =
     Some (js ''Jane Doe <jane@example.com>'') \<and>
   js ''Jane Doe <jane@example.com>'' = js ''Jane Doe <'' @ js ''jane@example.com'' @ js ''>'' \<and>
   email_shaped (js ''jane@example.com'') \<and>
   (\<exists>a' e' b'.
      from' (parseForwardedMail (js ''From: Jane Doe <jane@example.com>\<newline>Date: Mon, 1 Jan 2024\<newline>Subject: Hello'')) = Some e' \<and>
      js ''Jane Doe <jane@example.com>'' = a' @ e' @ b' \<and> email_shaped e' \<and>
      length a' \<le> length (js ''Jane Doe <''))"
proof -
  have "js ''Jane Doe <jane@example.com>'' = js ''Jane Doe <'' @ js ''jane@example.com'' @ js ''>''"
    by (simp add: js_def)
  then show ?thesis
    using sender_address_extracted
      [of "js ''From: Jane Doe <jane@example.com>\<newline>Date: Mon, 1 Jan 2024\<newline>Subject: Hello''"
        "js ''Jane Doe <jane@example.com>''" "js ''Jane Doe <''" "js ''jane@example.com''" "js ''>''"]
      forwarded_example_raw example_address_shaped
    by blast
qed

text \<open>
  C7. \<open>clean\<close> is the cleaning of the specification: the pieces from a \<open><\<close> to the
  next \<open>>\<close> are removed, every \<open>&nbsp;\<close> becomes one space, and the ends are
  trimmed. Nothing else is decoded: a text without \<open><\<close> and without \<open>&nbsp;\<close>
  is only trimmed, and \<open>&lt;\<close>, \<open>&gt;\<close> and \<open>&amp;\<close> stay as they are.
\<close>

theorem clean_refines_spec:
  "clean s = clean_spec s \<and>
   (cu CHR ''<'' \<notin> set s \<and> \<not> has_nbsp s \<longrightarrow> clean s = trim s) \<and>
   clean (js ''&lt;'') = js ''&lt;'' \<and> clean (js ''&gt;'') = js ''&gt;'' \<and>
   clean (js ''&amp;'') = js ''&amp;''"
  by (simp add: clean_eq_spec [symmetric] clean_plain clean_entities)

theorem clean_refines_spec_witness:
  "cu CHR ''<'' \<notin> set (js '' a &gt; b &amp; c '') \<and> \<not> has_nbsp (js '' a &gt; b &amp; c '') \<and>
   clean (js '' a &gt; b &amp; c '') = js ''a &gt; b &amp; c''"
proof -
  have h: "cu CHR ''<'' \<notin> set (js '' a &gt; b &amp; c '')" "\<not> has_nbsp (js '' a &gt; b &amp; c '')"
    by (simp_all add: js_def cu_eq_iff)
  have "trim (js '' a &gt; b &amp; c '') = js ''a &gt; b &amp; c''"
    by (simp add: eval)
  moreover have "clean (js '' a &gt; b &amp; c '') = trim (js '' a &gt; b &amp; c '')"
    using clean_refines_spec [of "js '' a &gt; b &amp; c ''"] h by blast
  ultimately show ?thesis
    using h by (simp only: simp_thms)
qed

text \<open>C8. Cleaning a cleaned text changes nothing.\<close>

theorem clean_idempotent: "clean (clean s) = clean s"
  by (simp add: clean_eq_spec clean_spec_idem)

text \<open>
  C9. \<open>escapeMarkdown\<close> puts exactly one backslash before each underscore, star,
  backtick and opening bracket and copies every other character, in order; the empty string
  is returned as it is.
\<close>

theorem escapeMarkdown_prepends_backslash:
  "escapeMarkdown text = concat (map (\<lambda>c. if is_special c then [cu CHR 0x5C, c] else [c]) text)
   \<and> escapeMarkdown [] = []"
  by (simp add: escapeMarkdown_def replace_all_chr)

text \<open>
  C10. In \<open>parseTransactionDetails\<close> the text captured by the pattern of a field,
  before cleaning, decides whether the field leaves its default: with no match or an empty
  capture the field is \<open>N/A\<close>, with a capture that is not empty it is the cleaned
  capture, whatever cleaning leaves of it. On \<open>Merchant/ATM: <b><br>\<close> the capture is
  \<open><b>\<close> and the merchant is the empty string; on
  \<open>Merchant/ATM:&nbsp;Starbucks<br>\<close> the capture is empty and the merchant is
  \<open>N/A\<close>.
\<close>

theorem default_suppressed_by_raw_capture:
  "(kartuMatch html = Some c \<and> c \<noteq> [] \<longrightarrow> akhirKartu (parseTransactionDetails html) = clean c) \<and>
   (merchantMatch html = Some c \<and> c \<noteq> [] \<longrightarrow> merchant (parseTransactionDetails html) = clean c) \<and>
   (tanggalMatch html = Some c \<and> c \<noteq> [] \<longrightarrow>
      tanggalTransaksi (parseTransactionDetails html) = clean c) \<and>
   (nominalMatch html = Some c \<and> c \<noteq> [] \<longrightarrow> nominal (parseTransactionDetails html) = clean c) \<and>
   (kartuMatch html = None \<or> kartuMatch html = Some [] \<longrightarrow>
      akhirKartu (parseTransactionDetails html) = js ''N/A'') \<and>
   (merchantMatch html = None \<or> merchantMatch html = Some [] \<longrightarrow>
      merchant (parseTransactionDetails html) = js ''N/A'') \<and>
   (tanggalMatch html = None \<or> tanggalMatch html = Some [] \<longrightarrow>
      tanggalTransaksi (parseTransactionDetails html) = js ''N/A'') \<and>
   (nominalMatch html = None \<or> nominalMatch html = Some [] \<longrightarrow>
      nominal (parseTransactionDetails html) = js ''N/A'') \<and>
   merchantMatch (js ''Merchant/ATM: <b><br>'') = Some (js ''<b>'') \<and>
   merchant (parseTransactionDetails (js ''Merchant/ATM: <b><br>'')) = [] \<and>
   merchantMatch (js ''Merchant/ATM:&nbsp;Starbucks<br>'') = Some [] \<and>
   merchant (parseTransactionDetails (js ''Merchant/ATM:&nbsp;Starbucks<br>'')) = js ''N/A''"
proof -
  have g: "html \<noteq> []"
    if "kartuMatch html \<noteq> None \<or> merchantMatch html \<noteq> None \<or> tanggalMatch html \<noteq> None \<or>
        nominalMatch html \<noteq> None"
    using that matches_of_empty by auto
  have e: "merchant (parseTransactionDetails (js ''Merchant/ATM: <b><br>'')) = []"
    by (simp add: parseTransactionDetails_def merchant_tag_only field_of_def clean_tag_only
        js_Nil_iff)
  have n: "akhirKartu (parseTransactionDetails html) = js ''N/A''"
    if "kartuMatch html = None \<or> kartuMatch html = Some []"
    using that by (auto simp: parseTransactionDetails_def field_of_def)
  have m: "merchant (parseTransactionDetails html) = js ''N/A''"
    if "merchantMatch html = None \<or> merchantMatch html = Some []"
    using that by (auto simp: parseTransactionDetails_def field_of_def)
  have t: "tanggalTransaksi (parseTransactionDetails html) = js ''N/A''"
    if "tanggalMatch html = None \<or> tanggalMatch html = Some []"
    using that by (auto simp: parseTransactionDetails_def field_of_def)
  have a: "nominal (parseTransactionDetails html) = js ''N/A''"
    if "nominalMatch html = None \<or> nominalMatch html = Some []"
    using that by (auto simp: parseTransactionDetails_def field_of_def)
  have p: "(kartuMatch html = Some c \<and> c \<noteq> [] \<longrightarrow> akhirKartu (parseTransactionDetails html) = clean c) \<and>
   (merchantMatch html = Some c \<and> c \<noteq> [] \<longrightarrow> merchant (parseTransactionDetails html) = clean c) \<and>
   (tanggalMatch html = Some c \<and> c \<noteq> [] \<longrightarrow>
      tanggalTransaksi (parseTransactionDetails html) = clean c) \<and>
   (nominalMatch html = Some c \<and> c \<noteq> [] \<longrightarrow> nominal (parseTransactionDetails html) = clean c)"
    using g by (auto simp: parseTransactionDetails_def field_of_nonempty)
  show ?thesis
    using p n m t a e merchant_tag_only merchant_nbsp_matches(2) merchant_nbsp_example(1) by blast
qed

theorem default_suppressed_by_raw_capture_witness:
  "merchantMatch (js ''Merchant/ATM: <b><br>'') = Some (js ''<b>'') \<and> js ''<b>'' \<noteq> [] \<and>
   merchant (parseTransactionDetails (js ''Merchant/ATM: <b><br>'')) = clean (js ''<b>'') \<and>
   clean (js ''<b>'') = [] \<and>
   kartuMatch (js ''4 digit Akhir Kartu: 1234'') = Some (js ''1234'') \<and> js ''1234'' \<noteq> [] \<and>
   akhirKartu (parseTransactionDetails (js ''4 digit Akhir Kartu: 1234'')) = clean (js ''1234'') \<and>
   tanggalMatch (js ''Tanggal Transaksi: 1 Jan<br>'') = Some (js ''1 Jan'') \<and> js ''1 Jan'' \<noteq> [] \<and>
   tanggalTransaksi (parseTransactionDetails (js ''Tanggal Transaksi: 1 Jan<br>'')) = clean (js ''1 Jan'') \<and>
   nominalMatch (js ''Nominal: Rp 5<br>'') = Some (js ''Rp 5'') \<and> js ''Rp 5'' \<noteq> [] \<and>
   nominal (parseTransactionDetails (js ''Nominal: Rp 5<br>'')) = clean (js ''Rp 5'') \<and>
   kartuMatch (js ''Merchant/ATM:&nbsp;Starbucks<br>'') = None \<and>
   merchantMatch (js ''Merchant/ATM:&nbsp;Starbucks<br>'') = Some [] \<and>
   tanggalMatch (js ''Merchant/ATM:&nbsp;Starbucks<br>'') = None \<and>
   nominalMatch (js ''Merchant/ATM:&nbsp;Starbucks<br>'') = None \<and>
   parseTransactionDetails (js ''Merchant/ATM:&nbsp;Starbucks<br>'') =
     \<lparr>akhirKartu = js ''N/A'', merchant = js ''N/A'', tanggalTransaksi = js ''N/A'',
      nominal = js ''N/A''\<rparr>"
  using default_suppressed_by_raw_capture [of "js ''Merchant/ATM: <b><br>''" "js ''<b>''"]
    default_suppressed_by_raw_capture [of "js ''4 digit Akhir Kartu: 1234''" "js ''1234''"]
    default_suppressed_by_raw_capture [of "js ''Tanggal Transaksi: 1 Jan<br>''" "js ''1 Jan''"]
    default_suppressed_by_raw_capture [of "js ''Nominal: Rp 5<br>''" "js ''Rp 5''"]
    default_suppressed_by_raw_capture [of "js ''Merchant/ATM:&nbsp;Starbucks<br>''"]
  by (simp add: clean_tag_only merchant_tag_only small_fields_matches merchant_nbsp_matches
      js_Nil_iff TransactionFields.equality)

end
